theory Spec2Isabelle
  imports Main
begin

section \<open>Calendar dates\<close>

text \<open>
  A \<^verbatim>\<open>pd.Timestamp\<close> is modelled at day resolution by its calendar fields. Date
  arithmetic (\<^verbatim>\<open>+ pd.Timedelta(days=k)\<close>), comparison and \<^verbatim>\<open>weekday()\<close> go through the
  proleptic Gregorian day number, computed as Python's \<^verbatim>\<open>date.toordinal\<close> does
  (1 is the first of January of year 1, a Monday). The bounds of the 64-bit nanosecond
  representation (years 1677 to 2262) are not modelled.
\<close>

record date =
  year :: int
  month :: int
  day :: int

definition is_leap :: "int \<Rightarrow> bool" where
  "is_leap y \<longleftrightarrow> y mod 4 = 0 \<and> (y mod 100 \<noteq> 0 \<or> y mod 400 = 0)"

definition days_in_month :: "int \<Rightarrow> int \<Rightarrow> int" where
  "days_in_month y m =
     (if m = 2 then (if is_leap y then 29 else 28)
      else if m = 4 \<or> m = 6 \<or> m = 9 \<or> m = 11 then 30 else 31)"

definition valid_date :: "date \<Rightarrow> bool" where
  "valid_date d \<longleftrightarrow>
     1 \<le> month d \<and> month d \<le> 12 \<and> 1 \<le> day d \<and> day d \<le> days_in_month (year d) (month d)"

definition days_before_year :: "int \<Rightarrow> int" where
  "days_before_year y = (y - 1) * 365 + (y - 1) div 4 - (y - 1) div 100 + (y - 1) div 400"

definition days_before_month :: "int \<Rightarrow> int \<Rightarrow> int" where
  "days_before_month y m =
     [0, 31, 59, 90, 120, 151, 181, 212, 243, 273, 304, 334] ! nat (m - 1)
       + (if 2 < m \<and> is_leap y then 1 else 0)"

definition toordinal :: "date \<Rightarrow> int" where
  "toordinal d = days_before_year (year d) + days_before_month (year d) (month d) + day d"

text \<open>Monday is 0 and Sunday is 6, on day numbers and on dates.\<close>

definition weekday_ord :: "int \<Rightarrow> int" where
  "weekday_ord n = (n + 6) mod 7"

definition weekday :: "date \<Rightarrow> int" where
  "weekday d = weekday_ord (toordinal d)"

section \<open>Errors and generator traces\<close>

text \<open>
  Both \<^verbatim>\<open>split\<close> methods are Python generators. What a caller who iterates one to its
  end observes is modelled as a list of events in the order they happen: a warning
  (\<^verbatim>\<open>warnings.warn\<close>, with the fold number and the row count of its message), a yielded
  pair of index arrays, or an exception, which ends the iteration.
\<close>

datatype error = ValueError | TypeError | IndexError | LibraryError string

datatype 'i event = Warn nat nat | Yield "'i list" "'i list" | Raise error

fun folds_of :: "'i event list \<Rightarrow> ('i list \<times> 'i list) list" where
  "folds_of [] = []"
| "folds_of (Yield tr te # es) = (tr, te) # folds_of es"
| "folds_of (_ # es) = folds_of es"

fun warnings_of :: "'i event list \<Rightarrow> (nat \<times> nat) list" where
  "warnings_of [] = []"
| "warnings_of (Warn k n # es) = (k, n) # warnings_of es"
| "warnings_of (_ # es) = warnings_of es"

fun errors_of :: "'i event list \<Rightarrow> error list" where
  "errors_of [] = []"
| "errors_of (Raise e # es) = e # errors_of es"
| "errors_of (_ # es) = errors_of es"

section \<open>AnchorSplit\<close>

record anchor_split =
  exec_date :: date
  n_splits :: int
  holidays :: "date list"
  test_size :: int
  min_date :: "date option"
  wk :: int
  ord_in_month :: int

text \<open>
  \<^verbatim>\<open>__init__\<close>: \<^verbatim>\<open>pd.Timestamp(exec_date)\<close> and \<^verbatim>\<open>pd.Timestamp(min_date)\<close> raise on a value
  that is no calendar date; nothing else is checked. The fields \<^verbatim>\<open>_wk\<close> and \<^verbatim>\<open>_ord\<close> are
  \<open>wk\<close> and \<open>ord_in_month\<close>.
\<close>

definition AnchorSplit_init ::
  "date \<Rightarrow> int \<Rightarrow> date list \<Rightarrow> int \<Rightarrow> date option \<Rightarrow> error + anchor_split" where
  "AnchorSplit_init exec_date' n_splits' holidays' test_size_bd min_date' =
     (if \<not> valid_date exec_date' then Inl ValueError
      else if (case min_date' of None \<Rightarrow> False | Some m \<Rightarrow> \<not> valid_date m) then Inl ValueError
      else Inr \<lparr>exec_date = exec_date', n_splits = n_splits', holidays = holidays',
                test_size = test_size_bd, min_date = min_date',
                wk = weekday exec_date',
                ord_in_month = 1 + (day exec_date' - 1) div 7\<rparr>)"

text \<open>
  \<^verbatim>\<open>_anchor_for_year\<close>, in two parts: the candidate computed by its first three lines, and
  the loop that steps back to a business day. Anchors are day numbers.
\<close>

definition anchor_candidate :: "anchor_split \<Rightarrow> int \<Rightarrow> int" where
  "anchor_candidate S y =
     (let first = toordinal \<lparr>year = y, month = month (exec_date S), day = 1\<rparr>;
          delta = (wk S - weekday_ord first) mod 7
      in first + (delta + 7 * (ord_in_month S - 1)))"

function step_back :: "int list \<Rightarrow> int \<Rightarrow> int" where
  "step_back hs a = (if 5 \<le> weekday_ord a \<or> a \<in> set hs then step_back hs (a - 1) else a)"
  by pat_completeness auto

text \<open>
  The loop stops on every finite holiday list: a step back from a holiday leaves fewer
  holidays at or before the date, and a step back from a weekend day that is no holiday
  leaves as many and lowers the weekday number.
\<close>

termination step_back
proof (relation "measures [\<lambda>(hs, a). card {h \<in> set hs. h \<le> a}, \<lambda>(hs, a). nat (weekday_ord a)]")
  show "wf (measures [\<lambda>(hs, a). card {h \<in> set hs. h \<le> a}, \<lambda>(hs, a). nat (weekday_ord a)])"
    by simp
next
  fix hs :: "int list" and a :: int
  assume c: "5 \<le> weekday_ord a \<or> a \<in> set hs"
  show "((hs, a - 1), hs, a)
       \<in> measures [\<lambda>(hs, a). card {h \<in> set hs. h \<le> a}, \<lambda>(hs, a). nat (weekday_ord a)]"
  proof (cases "a \<in> set hs")
    case True
    have "{h \<in> set hs. h \<le> a - 1} \<subseteq> {h \<in> set hs. h \<le> a}" by auto
    moreover from True have "a \<in> {h \<in> set hs. h \<le> a} - {h \<in> set hs. h \<le> a - 1}" by simp
    ultimately have "{h \<in> set hs. h \<le> a - 1} \<subset> {h \<in> set hs. h \<le> a}" by blast
    then have "card {h \<in> set hs. h \<le> a - 1} < card {h \<in> set hs. h \<le> a}"
      by (intro psubset_card_mono) simp_all
    then show ?thesis by simp
  next
    case False
    with c have w: "5 \<le> (a + 6) mod 7" by (simp add: weekday_ord_def)
    from False have "{h \<in> set hs. h \<le> a - 1} = {h \<in> set hs. h \<le> a}"
      by (auto simp: order.order_iff_strict)
    moreover have "nat (weekday_ord (a - 1)) < nat (weekday_ord a)"
    proof -
      have "(a - 1 + 6) mod 7 = ((a + 6) - 1) mod 7" by simp
      also have "\<dots> = ((a + 6) mod 7 - 1) mod 7" by (simp only: mod_diff_left_eq)
      also have "\<dots> = (a + 6) mod 7 - 1"
      proof (rule mod_pos_pos_trivial)
        from w show "0 \<le> (a + 6) mod 7 - 1" by simp
        have "(a + 6) mod 7 < 7" by simp
        then show "(a + 6) mod 7 - 1 < 7" by simp
      qed
      finally show ?thesis using w by (simp add: weekday_ord_def)
    qed
    ultimately show ?thesis by simp
  qed
qed

declare step_back.simps [simp del]

definition anchor_for_year :: "anchor_split \<Rightarrow> int \<Rightarrow> int" where
  "anchor_for_year S y = step_back (map toordinal (holidays S)) (anchor_candidate S y)"

text \<open>
  \<^verbatim>\<open>split\<close>. Two library calls are parameters of the model:
  \<^item> \<open>DatetimeIndex\<close> is \<^verbatim>\<open>pd.DatetimeIndex(X)\<close>: it raises or returns an index with a
    dtype and its values;
  \<^item> \<open>CustomBusinessDay n hs a\<close> is \<^verbatim>\<open>a + CustomBusinessDay(n=n, holidays=hs)\<close>.
  \<open>np_where p xs\<close> is \<^verbatim>\<open>np.where(mask)[0]\<close>: the positions where the mask holds, ascending.

  The dtype of an index is numpy's \<^verbatim>\<open>datetime64\<close>, the dtype pandas gives an index with
  a time zone (\<^verbatim>\<open>DatetimeTZDtype\<close>, which is no numpy dtype), or another numpy dtype.
  \<open>issubdtype_datetime64 t\<close> is \<^verbatim>\<open>np.issubdtype(t, np.datetime64)\<close>: true for
  \<^verbatim>\<open>datetime64\<close>, false for another numpy dtype, and a TypeError for the dtype with a
  time zone, which numpy cannot interpret.
\<close>

datatype np_dtype = Datetime64 | DatetimeTZDtype string | OtherDtype string

record datetime_index =
  dtype :: np_dtype
  vals :: "date list"

definition issubdtype_datetime64 :: "np_dtype \<Rightarrow> error + bool" where
  "issubdtype_datetime64 t =
     (case t of
        Datetime64 \<Rightarrow> Inr True
      | DatetimeTZDtype tz \<Rightarrow> Inl TypeError
      | OtherDtype name \<Rightarrow> Inr False)"

definition np_where :: "('a \<Rightarrow> bool) \<Rightarrow> 'a list \<Rightarrow> nat list" where
  "np_where p xs = filter (\<lambda>i. p (xs ! i)) [0..<length xs]"

definition before_min_date :: "anchor_split \<Rightarrow> int \<Rightarrow> bool" where
  "before_min_date S anchor =
     (case min_date S of None \<Rightarrow> False | Some m \<Rightarrow> anchor < toordinal m)"

definition test_idx_of ::
  "anchor_split \<Rightarrow> (int \<Rightarrow> date list \<Rightarrow> int \<Rightarrow> int) \<Rightarrow> date list \<Rightarrow> int \<Rightarrow> nat list" where
  "test_idx_of S CustomBusinessDay dates anchor =
     (let test_end = CustomBusinessDay (test_size S - 1) (holidays S) anchor
      in np_where (\<lambda>d. anchor \<le> toordinal d \<and> toordinal d \<le> test_end) dates)"

definition train_idx_of :: "date list \<Rightarrow> int \<Rightarrow> nat list" where
  "train_idx_of dates anchor = np_where (\<lambda>d. toordinal d < anchor) dates"

text \<open>
  The \<^verbatim>\<open>while\<close> loop of \<^verbatim>\<open>split\<close>, from its state (\<open>folds\<close>, \<open>yr\<close>). The loop
  condition reads \<^verbatim>\<open>dates[0]\<close> only when \<^verbatim>\<open>folds < n_splits\<close> holds, and raises
  IndexError on an empty index. Every pass that does not leave the loop lowers \<open>yr\<close>.
\<close>

function split_loop ::
  "anchor_split \<Rightarrow> (int \<Rightarrow> date list \<Rightarrow> int \<Rightarrow> int) \<Rightarrow> date list \<Rightarrow> nat \<Rightarrow> int \<Rightarrow> nat event list" where
  "split_loop S CustomBusinessDay dates folds yr =
     (if \<not> int folds < n_splits S then []
      else case dates of
        [] \<Rightarrow> [Raise IndexError]
      | d0 # _ \<Rightarrow>
          if \<not> year d0 \<le> yr then []
          else if before_min_date S (anchor_for_year S yr) then []
          else if test_idx_of S CustomBusinessDay dates (anchor_for_year S yr) = []
            then split_loop S CustomBusinessDay dates folds (yr - 1)
          else
            (if length (train_idx_of dates (anchor_for_year S yr)) < 252
             then [Warn (folds + 1) (length (train_idx_of dates (anchor_for_year S yr)))]
             else [])
            @ Yield (train_idx_of dates (anchor_for_year S yr))
                    (test_idx_of S CustomBusinessDay dates (anchor_for_year S yr))
            # split_loop S CustomBusinessDay dates (folds + 1) (yr - 1))"
  by pat_completeness auto

termination
  by (relation "measure (\<lambda>(S, bd, dates, folds, yr). nat (yr - year (hd dates) + 1))") auto

declare split_loop.simps [simp del]

definition AnchorSplit_split ::
  "anchor_split \<Rightarrow> ('x \<Rightarrow> error + datetime_index) \<Rightarrow> (int \<Rightarrow> date list \<Rightarrow> int \<Rightarrow> int)
     \<Rightarrow> 'x \<Rightarrow> nat event list" where
  "AnchorSplit_split S DatetimeIndex CustomBusinessDay X =
     (case DatetimeIndex X of
        Inl e \<Rightarrow> [Raise e]
      | Inr dates \<Rightarrow>
          (case issubdtype_datetime64 (dtype dates) of
             Inl e \<Rightarrow> [Raise e]
           | Inr is_datetime \<Rightarrow>
               if \<not> is_datetime then [Raise ValueError]
               else split_loop S CustomBusinessDay (vals dates) 0 (year (exec_date S) - 1)))"

definition get_n_splits :: "anchor_split \<Rightarrow> int" where
  "get_n_splits S = n_splits S"

section \<open>MonthlyTimeSeriesSplit\<close>

text \<open>
  The data frame is modelled by what \<^verbatim>\<open>split\<close> reads of it: its rows in order, each with
  its index label and the value of the date column, which holds dates already (a frame
  without the column, or with a column that holds no dates, is outside the model). A
  monthly period (\<^verbatim>\<open>to_period('M')\<close>) is its pandas ordinal, the number of months since
  January 1970; periods compare by it.
\<close>

type_synonym 'l dataframe = "('l \<times> date) list"

record monthly_split =
  date_column :: string
  mts_n_splits :: int
  max_train_size :: "int option"
  mts_test_size :: "int option"
  gap :: int
  min_days_in_last_month :: "int option"

definition to_period_M :: "date \<Rightarrow> int" where
  "to_period_M d = (year d - 1970) * 12 + (month d - 1)"

text \<open>\<^verbatim>\<open>Series.unique()\<close>: the distinct values in the order of their first appearance.\<close>

fun unique :: "'a list \<Rightarrow> 'a list" where
  "unique [] = []"
| "unique (x # xs) = x # filter (\<lambda>y. y \<noteq> x) (unique xs)"

definition unique_months :: "'l dataframe \<Rightarrow> int list" where
  "unique_months X = unique (map (to_period_M \<circ> snd) X)"

text \<open>\<^verbatim>\<open>Series.max()\<close> of integers; \<open>None\<close> is the NaN of an empty series.\<close>

fun series_max :: "int list \<Rightarrow> int option" where
  "series_max [] = None"
| "series_max (x # xs) = (case series_max xs of None \<Rightarrow> Some x | Some m \<Rightarrow> Some (max x m))"

text \<open>
  The largest day of month among the rows of the last bucket, \<^verbatim>\<open>unique_months[-1]\<close>.
\<close>

definition max_day_in_last_month :: "'l dataframe \<Rightarrow> int option" where
  "max_day_in_last_month X =
     (let last_month = last (unique_months X);
          last_month_data = filter (\<lambda>r. to_period_M (snd r) = last_month) X
      in series_max (map (day \<circ> snd) last_month_data))"

text \<open>
  The bucket list after the check of the last month: \<^verbatim>\<open>unique_months[-1]\<close> raises
  IndexError on an empty frame, and a comparison with NaN is false.
\<close>

definition kept_months :: "monthly_split \<Rightarrow> 'l dataframe \<Rightarrow> error + int list" where
  "kept_months S X =
     (case min_days_in_last_month S of
        None \<Rightarrow> Inr (unique_months X)
      | Some k \<Rightarrow>
          (case unique_months X of
             [] \<Rightarrow> Inl IndexError
           | _ # _ \<Rightarrow>
               if (case max_day_in_last_month X of None \<Rightarrow> False | Some m \<Rightarrow> m < k)
               then Inr (butlast (unique_months X))
               else Inr (unique_months X)))"

text \<open>\<^verbatim>\<open>unique_months[idx]\<close> with an array of positions: IndexError out of range.\<close>

definition take_idx :: "'a list \<Rightarrow> nat list \<Rightarrow> error + 'a list" where
  "take_idx xs idx =
     (if \<forall>i \<in> set idx. i < length xs then Inr (map (\<lambda>i. xs ! i) idx) else Inl IndexError)"

definition rows_in :: "'l dataframe \<Rightarrow> int list \<Rightarrow> 'l list" where
  "rows_in X months = map fst (filter (\<lambda>r. to_period_M (snd r) \<in> set months) X)"

text \<open>
  The \<^verbatim>\<open>for\<close> loop over the bucket folds that the delegate yields; \<open>err\<close> is the exception
  that ends the delegate's iteration, if any.
\<close>

fun month_folds ::
  "int list \<Rightarrow> 'l dataframe \<Rightarrow> error option \<Rightarrow> (nat list \<times> nat list) list \<Rightarrow> 'l event list" where
  "month_folds um X err [] = (case err of None \<Rightarrow> [] | Some e \<Rightarrow> [Raise e])"
| "month_folds um X err ((train_month_idx, test_month_idx) # rest) =
     (case take_idx um train_month_idx of
        Inl e \<Rightarrow> [Raise e]
      | Inr train_months \<Rightarrow>
          (case take_idx um test_month_idx of
             Inl e \<Rightarrow> [Raise e]
           | Inr test_months \<Rightarrow>
               Yield (rows_in X train_months) (rows_in X test_months)
               # month_folds um X err rest))"

text \<open>
  \<open>TimeSeriesSplit\<close> is scikit-learn's splitter, a parameter of the model: from the four
  settings and the bucket list it gives the bucket folds it yields and the exception that
  ends it, if any.
\<close>

type_synonym bucket_splitter =
  "int \<Rightarrow> int option \<Rightarrow> int option \<Rightarrow> int \<Rightarrow> int list \<Rightarrow> (nat list \<times> nat list) list \<times> error option"

definition month_splits :: "monthly_split \<Rightarrow> bucket_splitter \<Rightarrow> int list \<Rightarrow> (nat list \<times> nat list) list \<times> error option" where
  "month_splits S TimeSeriesSplit um =
     TimeSeriesSplit (mts_n_splits S) (max_train_size S) (mts_test_size S) (gap S) um"

definition MonthlyTimeSeriesSplit_split ::
  "monthly_split \<Rightarrow> bucket_splitter \<Rightarrow> 'l dataframe \<Rightarrow> 'l event list" where
  "MonthlyTimeSeriesSplit_split S TimeSeriesSplit X =
     (case kept_months S X of
        Inl e \<Rightarrow> [Raise e]
      | Inr um \<Rightarrow>
          month_folds um X (snd (month_splits S TimeSeriesSplit um))
            (fst (month_splits S TimeSeriesSplit um)))"

section \<open>The library collaborators\<close>

text \<open>
  Modelled from the spec: the business-day-offset primitive (pandas'
  \<^verbatim>\<open>CustomBusinessDay\<close>, not part of the repository). From a start date, a signed count
  of business days and a holiday list it gives the resulting date, walking only across
  business days; a start that is no business day is first moved to one, backward for a
  positive count and forward otherwise.
\<close>

function roll_forward :: "int list \<Rightarrow> int \<Rightarrow> int" where
  "roll_forward hs a = (if 5 \<le> weekday_ord a \<or> a \<in> set hs then roll_forward hs (a + 1) else a)"
  by pat_completeness auto

termination roll_forward
proof (relation "measures [\<lambda>(hs, a). card {h \<in> set hs. a \<le> h},
                           \<lambda>(hs, a). nat (7 - weekday_ord a) mod 7]")
  show "wf (measures [\<lambda>(hs, a). card {h \<in> set hs. a \<le> h},
                      \<lambda>(hs, a). nat (7 - weekday_ord a) mod 7])"
    by simp
next
  fix hs :: "int list" and a :: int
  assume c: "5 \<le> weekday_ord a \<or> a \<in> set hs"
  show "((hs, a + 1), hs, a)
       \<in> measures [\<lambda>(hs, a). card {h \<in> set hs. a \<le> h},
                    \<lambda>(hs, a). nat (7 - weekday_ord a) mod 7]"
  proof (cases "a \<in> set hs")
    case True
    have "{h \<in> set hs. a + 1 \<le> h} \<subseteq> {h \<in> set hs. a \<le> h}" by auto
    moreover from True have "a \<in> {h \<in> set hs. a \<le> h} - {h \<in> set hs. a + 1 \<le> h}" by simp
    ultimately have "{h \<in> set hs. a + 1 \<le> h} \<subset> {h \<in> set hs. a \<le> h}" by blast
    then have "card {h \<in> set hs. a + 1 \<le> h} < card {h \<in> set hs. a \<le> h}"
      by (intro psubset_card_mono) simp_all
    then show ?thesis by simp
  next
    case False
    with c have w: "5 \<le> (a + 6) mod 7" by (simp add: weekday_ord_def)
    from False have "{h \<in> set hs. a + 1 \<le> h} = {h \<in> set hs. a \<le> h}"
      by (auto simp: order.order_iff_strict)
    moreover have "nat (7 - weekday_ord (a + 1)) mod 7 < nat (7 - weekday_ord a) mod 7"
    proof -
      have "(a + 6) mod 7 < 7" by simp
      with w have k: "(a + 6) mod 7 = 5 \<or> (a + 6) mod 7 = 6" by arith
      have "(a + 1 + 6) mod 7 = ((a + 6) + 1) mod 7" by simp
      also have "\<dots> = ((a + 6) mod 7 + 1) mod 7" by (simp only: mod_add_left_eq)
      finally have "(a + 1 + 6) mod 7 = ((a + 6) mod 7 + 1) mod 7" .
      with k show ?thesis by (auto simp: weekday_ord_def)
    qed
    ultimately show ?thesis by simp
  qed
qed

declare roll_forward.simps [simp del]

fun busday_forward :: "int list \<Rightarrow> int \<Rightarrow> nat \<Rightarrow> int" where
  "busday_forward hs a 0 = a"
| "busday_forward hs a (Suc n) = busday_forward hs (roll_forward hs (a + 1)) n"

fun busday_backward :: "int list \<Rightarrow> int \<Rightarrow> nat \<Rightarrow> int" where
  "busday_backward hs a 0 = a"
| "busday_backward hs a (Suc n) = busday_backward hs (step_back hs (a - 1)) n"

definition busday_offset :: "int \<Rightarrow> date list \<Rightarrow> int \<Rightarrow> int" where
  "busday_offset n hs a =
     (if 0 < n then busday_forward (map toordinal hs) (step_back (map toordinal hs) a) (nat n)
      else busday_backward (map toordinal hs) (roll_forward (map toordinal hs) a) (nat (- n)))"

text \<open>
  Python's slice \<^verbatim>\<open>a[start:stop]\<close> of the array of the positions \<open>0, \<dots>, n - 1\<close>: a
  negative bound counts from the end, and both bounds are clipped to the array.
\<close>

definition py_bound :: "int \<Rightarrow> int \<Rightarrow> int" where
  "py_bound n i = (if i < 0 then max (i + n) 0 else min i n)"

definition py_slice :: "nat \<Rightarrow> int \<Rightarrow> int \<Rightarrow> nat list" where
  "py_slice n start stop = [nat (py_bound (int n) start)..<nat (py_bound (int n) stop)]"

text \<open>
  Python's \<^verbatim>\<open>range(start, stop, step)\<close>: a ValueError on a step of zero, else the values
  from \<open>start\<close> in steps of \<open>step\<close> that are before \<open>stop\<close> in the direction of the step.
\<close>

definition py_range :: "int \<Rightarrow> int \<Rightarrow> int \<Rightarrow> error + int list" where
  "py_range start stop step =
     (if step = 0 then Inl ValueError
      else if 0 < step
        then Inr (map (\<lambda>k. start + int k * step) [0..<nat ((stop - start + step - 1) div step)])
      else Inr (map (\<lambda>k. start + int k * step) [0..<nat ((start - stop - step - 1) div (- step))]))"

text \<open>
  scikit-learn's \<^verbatim>\<open>TimeSeriesSplit\<close>, the expanding-window splitter over the bucket list
  (a library, not part of the repository), as its constructor and its \<^verbatim>\<open>split\<close> compute
  the folds. The constructor refuses fewer than two splits. With \<open>n_samples\<close> buckets
  the test size is the given one or \<open>n_samples div (n_splits + 1)\<close>; \<^verbatim>\<open>split\<close> raises a
  ValueError when \<open>n_splits + 1 > n_samples\<close> or
  \<open>n_samples - gap - test_size * n_splits \<le> 0\<close>; the test windows start at
  \<^verbatim>\<open>range(n_samples - n_splits * test_size, n_samples, test_size)\<close>; the train buckets of
  a window are the slice of the positions that ends at \<open>test_start - gap\<close>; it starts
  at 0, or \<open>max_train_size\<close> before its end when that is set, not zero and smaller than
  \<open>test_start - gap\<close>. The sign of \<open>gap\<close>, of the test size and of \<open>max_train_size\<close>
  is checked nowhere.
\<close>

definition sklearn_TimeSeriesSplit :: bucket_splitter where
  "sklearn_TimeSeriesSplit n_splits' max_train_size' test_size' gap' X =
     (let n_samples = int (length X);
          n_folds = n_splits' + 1;
          tsz = (case test_size' of None \<Rightarrow> n_samples div n_folds | Some t \<Rightarrow> t)
      in if n_splits' \<le> 1 then ([], Some ValueError)
         else if n_samples < n_folds then ([], Some ValueError)
         else if n_samples - gap' - tsz * n_splits' \<le> 0 then ([], Some ValueError)
         else
           (case py_range (n_samples - n_splits' * tsz) n_samples tsz of
              Inl e \<Rightarrow> ([], Some e)
            | Inr test_starts \<Rightarrow>
                (map (\<lambda>test_start.
                        let train_end = test_start - gap';
                            train_start =
                              (case max_train_size' of
                                 None \<Rightarrow> 0
                               | Some m \<Rightarrow> if m \<noteq> 0 \<and> m < train_end then train_end - m else 0)
                        in (py_slice (length X) train_start train_end,
                            py_slice (length X) test_start (test_start + tsz)))
                   test_starts,
                 None)))"

text \<open>An index built from a list of dates keeps them and has the datetime dtype.\<close>

definition index_of_dates :: "date list \<Rightarrow> error + datetime_index" where
  "index_of_dates ds = Inr \<lparr>dtype = Datetime64, vals = ds\<rparr>"

text \<open>
  The calendar date of a day number, the inverse of \<open>toordinal\<close>, computed as
  \<^verbatim>\<open>date.fromordinal\<close> does: by the cycles of 400, 100 and 4 years, then the year, then
  the month from an estimate that is at most one too large.
\<close>

definition fromordinal :: "int \<Rightarrow> date" where
  "fromordinal n =
     (let n400 = (n - 1) div 146097; r400 = (n - 1) mod 146097;
          n100 = r400 div 36524; r100 = r400 mod 36524;
          n4 = r100 div 1461; r4 = r100 mod 1461;
          n1 = r4 div 365; r1 = r4 mod 365;
          y = n400 * 400 + 1 + n100 * 100 + n4 * 4 + n1
      in if n1 = 4 \<or> n100 = 4 then \<lparr>year = y - 1, month = 12, day = 31\<rparr>
         else
           (let m = (r1 + 50) div 32;
                m' = (if r1 < days_before_month y m then m - 1 else m)
            in \<lparr>year = y, month = m', day = r1 - days_before_month y m' + 1\<rparr>))"

text \<open>
  \<^verbatim>\<open>pd.DatetimeIndex\<close> on a Python list, for lists of dates and lists of integers. It
  converts what it is given: an integer is read as the number of nanoseconds since
  1 January 1970, and the index built from integers has the datetime dtype like the one
  built from dates. The integers that are timestamps for pandas are the 64-bit ones
  except the smallest, which it reads as NaT; on a list with an integer of more than 64
  bits it raises, and here a list with any integer outside the timestamps gives an error
  of the library. The time of day is dropped, as for all timestamps here.
\<close>

datatype sequence = Datetimes "date list" | Integers "int list"

definition date_of_epoch_ns :: "int \<Rightarrow> date" where
  "date_of_epoch_ns ns =
     fromordinal (toordinal \<lparr>year = 1970, month = 1, day = 1\<rparr> + ns div 86400000000000)"

definition pd_DatetimeIndex :: "sequence \<Rightarrow> error + datetime_index" where
  "pd_DatetimeIndex X =
     (case X of
        Datetimes ds \<Rightarrow> index_of_dates ds
      | Integers ns \<Rightarrow>
          if list_all (\<lambda>n. - (2 ^ 63) < n \<and> n < 2 ^ 63) ns
          then Inr \<lparr>dtype = Datetime64, vals = map date_of_epoch_ns ns\<rparr>
          else Inl (LibraryError ''out of bounds''))"

section \<open>Orders, guarantees and traces used in the statements\<close>

text \<open>Chronological order of dates: by year, then month, then day.\<close>

definition date_less :: "date \<Rightarrow> date \<Rightarrow> bool" where
  "date_less a b \<longleftrightarrow>
     year a < year b \<or> (year a = year b \<and> (month a < month b \<or> (month a = month b \<and> day a < day b)))"

definition date_le :: "date \<Rightarrow> date \<Rightarrow> bool" where
  "date_le a b \<longleftrightarrow> date_less a b \<or> (year a = year b \<and> month a = month b \<and> day a = day b)"

definition chronological :: "date list \<Rightarrow> bool" where
  "chronological ds \<longleftrightarrow> sorted_wrt date_le ds"

text \<open>
  Bucket folds whose test buckets are strictly after their train buckets, which is what
  the spec says of the folds of the expanding-window splitter.
\<close>

definition test_after_train :: "(nat list \<times> nat list) list \<Rightarrow> bool" where
  "test_after_train bfs \<longleftrightarrow> (\<forall>(btr, bte) \<in> set bfs. \<forall>i \<in> set btr. \<forall>j \<in> set bte. i < j)"

text \<open>
  What \<^verbatim>\<open>split\<close> emits for one fold: the warning, when the train indices are fewer than
  252, with the number of the fold and the count of its train indices, then the fold.
\<close>

definition low_train_warning :: "nat \<Rightarrow> nat list \<Rightarrow> nat event list" where
  "low_train_warning k train_idx =
     (if length train_idx < 252 then [Warn k (length train_idx)] else [])"

definition fold_events :: "nat \<times> nat list \<times> nat list \<Rightarrow> nat event list" where
  "fold_events = (\<lambda>(i, tr, te). low_train_warning i tr @ [Yield tr te])"

section \<open>Concrete splitters, indexes and frames\<close>

text \<open>
  A splitter for the second Friday of January with a test window of five business days,
  with and without a minimum date, and indexes for it: four dates over three years, two
  dates of 2023, the two first days of the test window of 2024, and 252 rows of one day
  of January 2023 followed by one row in the test window of 2024.
\<close>

definition second_friday :: anchor_split where
  "second_friday =
     \<lparr>exec_date = \<lparr>year = 2025, month = 1, day = 10\<rparr>, n_splits = 7, holidays = [],
      test_size = 5, min_date = Some \<lparr>year = 2023, month = 6, day = 1\<rparr>, wk = 4,
      ord_in_month = 2\<rparr>"

definition second_friday_no_floor :: anchor_split where
  "second_friday_no_floor = second_friday\<lparr>min_date := None\<rparr>"

definition four_dates :: "date list" where
  "four_dates =
     [\<lparr>year = 2022, month = 1, day = 14\<rparr>, \<lparr>year = 2023, month = 1, day = 13\<rparr>,
      \<lparr>year = 2024, month = 1, day = 12\<rparr>, \<lparr>year = 2024, month = 1, day = 15\<rparr>]"

definition two_dates :: "date list" where
  "two_dates = [\<lparr>year = 2023, month = 1, day = 13\<rparr>, \<lparr>year = 2023, month = 6, day = 1\<rparr>]"

definition window_index :: "date list" where
  "window_index = [\<lparr>year = 2024, month = 1, day = 12\<rparr>, \<lparr>year = 2024, month = 1, day = 15\<rparr>]"

definition long_index :: "date list" where
  "long_index =
     \<lparr>year = 2023, month = 1, day = 2\<rparr> # replicate 251 \<lparr>year = 2023, month = 1, day = 2\<rparr>
       @ [\<lparr>year = 2024, month = 1, day = 12\<rparr>]"

text \<open>The weekdays of the first two weeks of January 2024, as a holiday list.\<close>

definition two_closed_weeks :: "date list" where
  "two_closed_weeks =
     [\<lparr>year = 2024, month = 1, day = 1\<rparr>, \<lparr>year = 2024, month = 1, day = 2\<rparr>,
      \<lparr>year = 2024, month = 1, day = 3\<rparr>, \<lparr>year = 2024, month = 1, day = 4\<rparr>,
      \<lparr>year = 2024, month = 1, day = 5\<rparr>, \<lparr>year = 2024, month = 1, day = 8\<rparr>,
      \<lparr>year = 2024, month = 1, day = 9\<rparr>, \<lparr>year = 2024, month = 1, day = 10\<rparr>,
      \<lparr>year = 2024, month = 1, day = 11\<rparr>, \<lparr>year = 2024, month = 1, day = 12\<rparr>]"

text \<open>
  A frame of five rows over four months, the last month with one row on its third day,
  and a monthly splitter of two folds, without and with a minimum of 10 days.
\<close>

definition five_rows :: "nat dataframe" where
  "five_rows =
     [(0, \<lparr>year = 2023, month = 1, day = 5\<rparr>), (1, \<lparr>year = 2023, month = 1, day = 20\<rparr>),
      (2, \<lparr>year = 2023, month = 2, day = 5\<rparr>), (3, \<lparr>year = 2023, month = 3, day = 5\<rparr>),
      (4, \<lparr>year = 2023, month = 4, day = 3\<rparr>)]"

definition two_folds :: monthly_split where
  "two_folds = \<lparr>date_column = ''date'', mts_n_splits = 2, max_train_size = None,
                mts_test_size = None, gap = 0, min_days_in_last_month = None\<rparr>"

definition two_folds_min_10 :: monthly_split where
  "two_folds_min_10 = two_folds\<lparr>min_days_in_last_month := Some 10\<rparr>"

text \<open>The splitter of two folds with a gap of one bucket, and with a gap of minus one.\<close>

definition two_folds_gap_1 :: monthly_split where
  "two_folds_gap_1 = two_folds\<lparr>gap := 1\<rparr>"

definition two_folds_negative_gap :: monthly_split where
  "two_folds_negative_gap = two_folds\<lparr>gap := - 1\<rparr>"

section \<open>Properties of the calendar arithmetic\<close>

lemma weekday_ord_range: "0 \<le> weekday_ord a \<and> weekday_ord a < 7"
  unfolding weekday_ord_def by simp

lemma step_back_le: "step_back hs a \<le> a"
proof (induction hs a rule: step_back.induct)
  case (1 hs a)
  show ?case
  proof (cases "5 \<le> weekday_ord a \<or> a \<in> set hs")
    case True
    with "1.IH" have "step_back hs (a - 1) \<le> a - 1" by simp
    with True show ?thesis by (simp add: step_back.simps [of hs a])
  next
    case False
    then show ?thesis by (simp add: step_back.simps [of hs a])
  qed
qed

lemma step_back_business_day:
  "weekday_ord (step_back hs a) < 5 \<and> step_back hs a \<notin> set hs"
proof (induction hs a rule: step_back.induct)
  case (1 hs a)
  show ?case
  proof (cases "5 \<le> weekday_ord a \<or> a \<in> set hs")
    case True
    with "1.IH" True show ?thesis by (simp add: step_back.simps [of hs a])
  next
    case False
    then show ?thesis by (simp add: step_back.simps [of hs a])
  qed
qed

lemma step_back_skipped:
  "step_back hs a < d \<Longrightarrow> d \<le> a \<Longrightarrow> 5 \<le> weekday_ord d \<or> d \<in> set hs"
proof (induction hs a rule: step_back.induct)
  case (1 hs a)
  show ?case
  proof (cases "5 \<le> weekday_ord a \<or> a \<in> set hs")
    case True
    show ?thesis
    proof (cases "d = a")
      case True
      with \<open>5 \<le> weekday_ord a \<or> a \<in> set hs\<close> show ?thesis by simp
    next
      case False
      with "1.prems" have "d \<le> a - 1" by simp
      moreover from "1.prems" True have "step_back hs (a - 1) < d"
        by (simp add: step_back.simps [of hs a])
      ultimately show ?thesis using "1.IH" True by simp
    qed
  next
    case False
    with "1.prems" show ?thesis by (simp add: step_back.simps [of hs a])
  qed
qed

lemma step_back_latest:
  assumes "d \<le> a" and "weekday_ord d < 5" and "d \<notin> set hs"
  shows "d \<le> step_back hs a"
proof (rule ccontr)
  assume "\<not> d \<le> step_back hs a"
  then have "step_back hs a < d" by simp
  from step_back_skipped [OF this assms(1)] assms(2,3) show False by simp
qed

lemma div7_succ: "((x::int) + 1) div 7 = x div 7 + (if 7 dvd (x + 1) then 1 else 0)"
proof -
  define m where "m = x mod 7"
  define q where "q = x div 7"
  have "0 \<le> m" "m < 7" by (simp_all add: m_def)
  then have cases: "m = 0 \<or> m = 1 \<or> m = 2 \<or> m = 3 \<or> m = 4 \<or> m = 5 \<or> m = 6" by arith
  have x: "x = m + q * 7" by (simp add: m_def q_def)
  from cases show ?thesis unfolding x by (elim disjE) simp_all
qed

lemma count_same_weekday:
  "0 \<le> d \<Longrightarrow> 1 \<le> r \<Longrightarrow> r \<le> 7 \<Longrightarrow>
     int (length (filter (\<lambda>k. k mod 7 = r mod 7) [1..d])) = (d - r + 7) div 7"
proof (induction d rule: int_ge_induct)
  case base
  then have "(7 - r) div 7  = 0" by simp
  then show ?case by simp
next
  case (step i)
  from step.hyps have u: "[1..i + 1] = [1..i] @ [i + 1]"
    by (simp add: upto_rec2)
  have e: "((i + 1) mod 7 = r mod 7) = (7 dvd (i - r + 7 + 1))"
  proof -
    have "((i + 1) mod 7 = r mod 7) = (7 dvd (i + 1 - r))"
      by (simp add: mod_eq_dvd_iff)
    also have "i + 1 - r = (i - r + 7 + 1) - 7" by simp
    also have "7 dvd (i - r + 7 + 1) - 7 \<longleftrightarrow> 7 dvd (i - r + 7 + 1)"
      by (rule dvd_diff_left_iff) simp
    finally show ?thesis .
  qed
  have "i + 1 - r + 7 = (i - r + 7) + 1" by simp
  then have "(i + 1 - r + 7) div 7 = (i - r + 7) div 7 + (if (i + 1) mod 7 = r mod 7 then 1 else 0)"
    using div7_succ [of "i - r + 7"] unfolding e by simp
  with step u show ?case by simp
qed

lemma rep_mod7:
  "((d::int) - 1) mod 7 + 1 \<le> 7 \<and> 1 \<le> (d - 1) mod 7 + 1 \<and> 7 dvd ((d - 1) mod 7 + 1 - d)"
proof -
  have "(d - 1) mod 7 + 1 - d = - (7 * ((d - 1) div 7))"
    using minus_mod_eq_mult_div [of "d - 1" 7] by simp
  then have "7 dvd ((d - 1) mod 7 + 1 - d)" by simp
  moreover have "(d - 1) mod 7 < 7" "0 \<le> (d - 1) mod 7" by simp_all
  ultimately show ?thesis by simp
qed

lemma rep_div7: "((d::int) - ((d - 1) mod 7 + 1) + 7) div 7 = 1 + (d - 1) div 7"
proof -
  have "d - ((d - 1) mod 7 + 1) + 7 = 7 * ((d - 1) div 7 + 1)"
    using minus_mod_eq_mult_div [of "d - 1" 7] by simp
  then show ?thesis by simp
qed

lemma ordinal_count:
  assumes "1 \<le> d"
  shows "int (length (filter (\<lambda>k. (c + k) mod 7 = (c + d) mod 7) [1..d])) = 1 + (d - 1) div (7::int)"
proof -
  define r where "r = (d - 1) mod 7 + 1"
  have r: "1 \<le> r" "r \<le> 7" "7 dvd (r - d)"
    unfolding r_def using rep_mod7 [of d] by simp_all
  have "(\<lambda>k. (c + k) mod 7 = (c + d) mod 7) = (\<lambda>k. k mod 7 = r mod 7)"
  proof
    fix k :: int
    have "((c + k) mod 7 = (c + d) mod 7) = (7 dvd (k - d))"
      by (simp add: mod_eq_dvd_iff)
    also have "k - d = (k - r) + (r - d)" by simp
    also have "7 dvd (k - r) + (r - d) \<longleftrightarrow> 7 dvd (k - r)"
      using r(3) by (rule dvd_add_left_iff)
    also have "\<dots> = (k mod 7 = r mod 7)"
      by (simp add: mod_eq_dvd_iff)
    finally show "((c + k) mod 7 = (c + d) mod 7) = (k mod 7 = r mod 7)" .
  qed
  then have "int (length (filter (\<lambda>k. (c + k) mod 7 = (c + d) mod 7) [1..d])) = (d - r + 7) div 7"
    using count_same_weekday [of d r] assms r by simp
  also have "\<dots> = 1 + (d - 1) div 7"
    unfolding r_def by (rule rep_div7)
  finally show ?thesis .
qed

lemma same_weekday_count:
  assumes "1 \<le> day e"
  shows "int (length (filter (\<lambda>k. weekday (e\<lparr>day := k\<rparr>) = weekday e) [1..day e]))
           = 1 + (day e - 1) div 7"
proof -
  define c where "c = days_before_year (year e) + days_before_month (year e) (month e) + 6"
  have "(\<lambda>k. weekday (e\<lparr>day := k\<rparr>) = weekday e) = (\<lambda>k. (c + k) mod 7 = (c + day e) mod 7)"
    by (rule ext) (simp add: weekday_def weekday_ord_def toordinal_def c_def add.commute add.left_commute)
  then show ?thesis using ordinal_count [OF assms, of c] by simp
qed

text \<open>Day numbers follow the calendar: on calendar dates, an earlier date has a smaller one.\<close>

lemma div_pred:
  assumes "0 < (n::int)"
  shows "y div n = (y - 1) div n + (if n dvd y then 1 else 0)"
proof -
  define q where "q = (y - 1) div n"
  define m where "m = (y - 1) mod n"
  have m: "0 \<le> m" "m < n" using assms by (simp_all add: m_def)
  have "y - 1 = q * n + m" by (simp add: q_def m_def)
  then have y: "y = q * n + (m + 1)" by simp
  have "y div n = q + (if n dvd y then 1 else 0)"
  proof (cases "m + 1 = n")
    case True
    then have "q * n + (m + 1) = (q + 1) * n" by (simp add: algebra_simps)
    then have "(q * n + (m + 1)) div n = q + 1" "n dvd (q * n + (m + 1))"
      using assms by simp_all
    then show ?thesis by (simp add: y)
  next
    case False
    with m have b: "0 \<le> m + 1" "m + 1 < n" by simp_all
    then have "(m + 1) div n = 0" by simp
    then have "(q * n + (m + 1)) div n = q" using assms by simp
    moreover have "\<not> n dvd (q * n + (m + 1))"
    proof
      assume "n dvd (q * n + (m + 1))"
      then have "n dvd (m + 1)" by (simp add: dvd_add_right_iff)
      then have "n \<le> m + 1" using m by (intro zdvd_imp_le) simp_all
      with b show False by simp
    qed
    ultimately show ?thesis by (simp add: y)
  qed
  then show ?thesis by (simp only: q_def)
qed


lemma leap_count:
  "(R \<Longrightarrow> Q) \<Longrightarrow> (Q \<Longrightarrow> P) \<Longrightarrow>
     (if P then 1 else 0) - (if Q then 1 else 0) + (if R then 1 else 0)
       = (if P \<and> (\<not> Q \<or> R) then 1 else (0::int))"
  by (cases P; cases Q; cases R) simp_all

lemma days_before_year_succ:
  "days_before_year (y + 1) = days_before_year y + (if is_leap y then 366 else 365)"
proof -
  have 1: "400 dvd y \<Longrightarrow> 100 dvd y" and 2: "100 dvd y \<Longrightarrow> 4 dvd y"
    by (auto elim: dvd_trans [rotated])
  have l: "is_leap y \<longleftrightarrow> 4 dvd y \<and> (\<not> 100 dvd y \<or> 400 dvd y)"
    by (simp add: is_leap_def dvd_eq_mod_eq_0)
  have d: "y div 4 = (y - 1) div 4 + (if 4 dvd y then 1 else 0)"
    "y div 100 = (y - 1) div 100 + (if 100 dvd y then 1 else 0)"
    "y div 400 = (y - 1) div 400 + (if 400 dvd y then 1 else 0)"
    by (rule div_pred, simp)+
  have "days_before_year (y + 1) = y * 365 + y div 4 - y div 100 + y div 400"
    by (simp add: days_before_year_def)
  also have "\<dots> = days_before_year y + 365
      + ((if 4 dvd y then 1 else 0) - (if 100 dvd y then 1 else 0) + (if 400 dvd y then 1 else 0))"
    unfolding d days_before_year_def by (simp add: algebra_simps)
  also have "(if 4 dvd y then 1 else 0) - (if 100 dvd y then 1 else 0) + (if 400 dvd y then 1 else 0)
      = (if is_leap y then 1 else (0::int))"
    unfolding l using 1 2 by (rule leap_count)
  finally show ?thesis by simp
qed

lemma year_length_pos: "0 < (if is_leap y then 366 else (365::int))"
  by simp

lemma days_before_year_mono:
  "y1 < y2 \<Longrightarrow> days_before_year y1 + (if is_leap y1 then 366 else 365) \<le> days_before_year y2"
proof (induction y2 rule: int_gr_induct)
  case base
  then show ?case by (simp add: days_before_year_succ)
next
  case (step i)
  have "days_before_year i \<le> days_before_year (i + 1)"
    by (simp add: days_before_year_succ)
  with step.IH show ?case by simp
qed

lemma days_before_month_succ:
  assumes "1 \<le> m" and "m < 12"
  shows "days_before_month y (m + 1) = days_before_month y m + days_in_month y m"
proof -
  from assms have "m = 1 \<or> m = 2 \<or> m = 3 \<or> m = 4 \<or> m = 5 \<or> m = 6 \<or> m = 7 \<or> m = 8
      \<or> m = 9 \<or> m = 10 \<or> m = 11"
    by arith
  then show ?thesis
    by (elim disjE) (simp_all add: days_before_month_def days_in_month_def)
qed

lemma days_in_month_pos: "28 \<le> days_in_month y m"
  by (simp add: days_in_month_def)

lemma days_before_month_mono:
  assumes "m1 < m2" and "1 \<le> m1" and "m2 \<le> 12"
  shows "days_before_month y m1 + days_in_month y m1 \<le> days_before_month y m2"
  using assms
proof (induction m2 rule: int_gr_induct)
  case base
  then show ?case by (simp add: days_before_month_succ)
next
  case (step i)
  from step.prems step.hyps have "days_before_month y (i + 1) = days_before_month y i + days_in_month y i"
    by (intro days_before_month_succ) simp_all
  moreover have "0 \<le> days_in_month y i" using days_in_month_pos [of y i] by simp
  moreover from step have "days_before_month y m1 + days_in_month y m1 \<le> days_before_month y i"
    by simp
  ultimately show ?case by simp
qed

lemma days_before_month_12:
  "days_before_month y 12 + days_in_month y 12 = (if is_leap y then 366 else 365)"
  by (simp add: days_before_month_def days_in_month_def)

lemma day_of_year_le:
  assumes "valid_date a"
  shows "days_before_month (year a) (month a) + day a \<le> (if is_leap (year a) then 366 else 365)"
proof -
  from assms have v: "1 \<le> month a" "month a \<le> 12" "day a \<le> days_in_month (year a) (month a)"
    by (simp_all add: valid_date_def)
  show ?thesis
  proof (cases "month a = 12")
    case True
    with v(3) days_before_month_12 [of "year a"] show ?thesis by (simp split: if_splits)
  next
    case False
    with v have "days_before_month (year a) (month a) + days_in_month (year a) (month a)
        \<le> days_before_month (year a) 12"
      by (intro days_before_month_mono) simp_all
    moreover have "days_before_month (year a) 12 \<le> (if is_leap (year a) then 366 else 365)"
      using days_before_month_12 [of "year a"] days_in_month_pos [of "year a" 12]
      by (simp split: if_splits)
    ultimately show ?thesis using v(3) by simp
  qed
qed

lemma days_before_month_nonneg: "1 \<le> m \<Longrightarrow> m \<le> 12 \<Longrightarrow> 0 \<le> days_before_month y m"
proof -
  assume "1 \<le> m" "m \<le> 12"
  then have "m = 1 \<or> m = 2 \<or> m = 3 \<or> m = 4 \<or> m = 5 \<or> m = 6 \<or> m = 7 \<or> m = 8
      \<or> m = 9 \<or> m = 10 \<or> m = 11 \<or> m = 12"
    by arith
  then show ?thesis by (elim disjE) (simp_all add: days_before_month_def)
qed

lemma toordinal_mono:
  assumes "valid_date a" and "valid_date b" and "date_less a b"
  shows "toordinal a < toordinal b"
proof -
  from assms(1) have va: "1 \<le> month a" "month a \<le> 12" "1 \<le> day a"
    "day a \<le> days_in_month (year a) (month a)"
    by (simp_all add: valid_date_def)
  from assms(2) have vb: "1 \<le> month b" "month b \<le> 12" "1 \<le> day b"
    by (simp_all add: valid_date_def)
  from assms(3) consider "year a < year b"
    | "year a = year b" "month a < month b"
    | "year a = year b" "month a = month b" "day a < day b"
    by (auto simp: date_less_def)
  then show ?thesis
  proof cases
    case 1
    have "toordinal a \<le> days_before_year (year a) + (if is_leap (year a) then 366 else 365)"
      using day_of_year_le [OF assms(1)] by (simp add: toordinal_def)
    also have "\<dots> \<le> days_before_year (year b)"
      using 1 by (rule days_before_year_mono)
    also have "\<dots> < toordinal b"
      using days_before_month_nonneg [OF vb(1,2), of "year b"] vb(3) by (simp add: toordinal_def)
    finally show ?thesis .
  next
    case 2
    have "days_before_month (year a) (month a) + day a
        \<le> days_before_month (year a) (month a) + days_in_month (year a) (month a)"
      using va(4) by simp
    also have "\<dots> \<le> days_before_month (year a) (month b)"
      using 2(2) va(1) vb(2) by (rule days_before_month_mono)
    also have "\<dots> < days_before_month (year a) (month b) + day b"
      using vb(3) by simp
    finally show ?thesis using 2(1) by (simp add: toordinal_def)
  next
    case 3
    then show ?thesis by (simp add: toordinal_def)
  qed
qed

lemma toordinal_less_iff:
  assumes "valid_date a" and "valid_date b"
  shows "toordinal a < toordinal b \<longleftrightarrow> date_less a b"
proof
  assume "date_less a b"
  with assms show "toordinal a < toordinal b" by (rule toordinal_mono)
next
  assume l: "toordinal a < toordinal b"
  show "date_less a b"
  proof (rule ccontr)
    assume "\<not> date_less a b"
    then have "date_less b a \<or> (year a = year b \<and> month a = month b \<and> day a = day b)"
      by (auto simp: date_less_def)
    then show False
    proof
      assume "date_less b a"
      with assms have "toordinal b < toordinal a" by (intro toordinal_mono)
      with l show False by simp
    next
      assume "year a = year b \<and> month a = month b \<and> day a = day b"
      then have "toordinal a = toordinal b" by (simp add: toordinal_def)
      with l show False by simp
    qed
  qed
qed

section \<open>AnchorSplit: the anchor of a year\<close>

lemma AnchorSplit_init_Inr:
  assumes "AnchorSplit_init e n hs t md = Inr S"
  shows "valid_date e" and "exec_date S = e" and "n_splits S = n" and "holidays S = hs"
    and "test_size S = t" and "min_date S = md" and "wk S = weekday e"
    and "ord_in_month S = 1 + (day e - 1) div 7"
  using assms by (auto simp: AnchorSplit_init_def split: if_splits)

text \<open>
  Claim C4. For a splitter built by \<^verbatim>\<open>__init__\<close> from the execution date \<open>e\<close> and for every
  target year \<open>y\<close>, the candidate anchor before snapping is the first day of month
  (\<open>y\<close>, month of \<open>e\<close>), plus ((weekday of \<open>e\<close> minus weekday of that first day) mod 7) days,
  plus 7 times (ordinal - 1) days, where ordinal = 1 + (day of \<open>e\<close> - 1) div 7; and this
  ordinal is the number of days of \<open>e\<close>'s own month, from the first up to \<open>e\<close>, that fall on
  \<open>e\<close>'s weekday.
\<close>

theorem anchor_candidate_formula:
  assumes "AnchorSplit_init e n hs t md = Inr S"
  shows "anchor_candidate S y =
           toordinal \<lparr>year = y, month = month e, day = 1\<rparr>
           + (weekday e - weekday \<lparr>year = y, month = month e, day = 1\<rparr>) mod 7
           + 7 * (ord_in_month S - 1)
         \<and> ord_in_month S = 1 + (day e - 1) div 7
         \<and> ord_in_month S =
             int (length (filter (\<lambda>k. weekday (e\<lparr>day := k\<rparr>) = weekday e) [1..day e]))"
proof -
  note f = AnchorSplit_init_Inr [OF assms]
  from f(1) have "1 \<le> day e" by (simp add: valid_date_def)
  then have "int (length (filter (\<lambda>k. weekday (e\<lparr>day := k\<rparr>) = weekday e) [1..day e]))
               = 1 + (day e - 1) div 7"
    by (rule same_weekday_count)
  moreover have "anchor_candidate S y =
           toordinal \<lparr>year = y, month = month e, day = 1\<rparr>
           + (weekday e - weekday \<lparr>year = y, month = month e, day = 1\<rparr>) mod 7
           + 7 * (ord_in_month S - 1)"
    by (simp add: anchor_candidate_def Let_def f(2,7) weekday_def)
  ultimately show ?thesis using f(8) by simp
qed

theorem anchor_candidate_formula_witness:
  "AnchorSplit_init \<lparr>year = 2025, month = 1, day = 10\<rparr> 7 [] 42 None =
     Inr \<lparr>exec_date = \<lparr>year = 2025, month = 1, day = 10\<rparr>, n_splits = 7, holidays = [],
          test_size = 42, min_date = None, wk = 4, ord_in_month = 2\<rparr>
   \<and> anchor_candidate \<lparr>exec_date = \<lparr>year = 2025, month = 1, day = 10\<rparr>, n_splits = 7, holidays = [],
          test_size = 42, min_date = None, wk = 4, ord_in_month = 2\<rparr> 2024
       = toordinal \<lparr>year = 2024, month = 1, day = 12\<rparr>
   \<and> length (filter (\<lambda>k. weekday \<lparr>year = 2025, month = 1, day = k\<rparr> = 4) [1..10]) = 2"
proof -
  have h: "AnchorSplit_init \<lparr>year = 2025, month = 1, day = 10\<rparr> 7 [] 42 None =
     Inr \<lparr>exec_date = \<lparr>year = 2025, month = 1, day = 10\<rparr>, n_splits = 7, holidays = [],
          test_size = 42, min_date = None, wk = 4, ord_in_month = 2\<rparr>"
    by (simp add: AnchorSplit_init_def valid_date_def days_in_month_def weekday_def
        weekday_ord_def toordinal_def days_before_year_def days_before_month_def)
  have w: "weekday \<lparr>year = 2025, month = 1, day = 10\<rparr> = 4"
    by (simp add: weekday_def weekday_ord_def toordinal_def days_before_year_def days_before_month_def)
  from anchor_candidate_formula [OF h, of 2024] h w show ?thesis
    by (simp add: weekday_def weekday_ord_def toordinal_def days_before_year_def
        days_before_month_def is_leap_def)
qed

lemmas calendar_defs =
  weekday_def weekday_ord_def toordinal_def days_before_year_def days_before_month_def
  is_leap_def valid_date_def days_in_month_def

text \<open>
  Claim C5 says that the loop lands within 7 days of the candidate. With the weekdays of
  the first two weeks of January 2024 as holidays, the candidate of 2024 (Friday the
  12th) is moved back 14 days, to Friday, 29 December 2023.
\<close>

theorem anchor_snap_far_counterexample:
  "anchor_candidate
       \<lparr>exec_date = \<lparr>year = 2025, month = 1, day = 10\<rparr>, n_splits = 7,
        holidays = two_closed_weeks, test_size = 42, min_date = None, wk = 4,
        ord_in_month = 2\<rparr> 2024 = toordinal \<lparr>year = 2024, month = 1, day = 12\<rparr>
   \<and> anchor_for_year
       \<lparr>exec_date = \<lparr>year = 2025, month = 1, day = 10\<rparr>, n_splits = 7,
        holidays = two_closed_weeks, test_size = 42, min_date = None, wk = 4,
        ord_in_month = 2\<rparr> 2024 = toordinal \<lparr>year = 2023, month = 12, day = 29\<rparr>
   \<and> \<not> (anchor_candidate
         \<lparr>exec_date = \<lparr>year = 2025, month = 1, day = 10\<rparr>, n_splits = 7,
          holidays = two_closed_weeks, test_size = 42, min_date = None, wk = 4,
          ord_in_month = 2\<rparr> 2024
       - anchor_for_year
         \<lparr>exec_date = \<lparr>year = 2025, month = 1, day = 10\<rparr>, n_splits = 7,
          holidays = two_closed_weeks, test_size = 42, min_date = None, wk = 4,
          ord_in_month = 2\<rparr> 2024 \<le> 7)"
  by (simp add: anchor_for_year_def anchor_candidate_def two_closed_weeks_def calendar_defs
      step_back.simps)

text \<open>
  Claim C5, as amended. For every holiday list, the loop of \<^verbatim>\<open>_anchor_for_year\<close> returns
  (\<open>step_back\<close> is a total function: the loop terminates); the anchor is never after the
  candidate; it is a weekday, Monday to Friday, that is no holiday; every date after it
  up to the candidate is a weekend day or a holiday, so it is the latest business day not
  after the candidate. It is within 7 days of the candidate whenever the candidate or one
  of the six days before it is a business day.
\<close>

theorem anchor_snapping:
  "anchor_for_year S y \<le> anchor_candidate S y
   \<and> 0 \<le> weekday_ord (anchor_for_year S y) \<and> weekday_ord (anchor_for_year S y) < 5
   \<and> anchor_for_year S y \<notin> toordinal ` set (holidays S)
   \<and> (\<forall>d. anchor_for_year S y < d \<and> d \<le> anchor_candidate S y \<longrightarrow>
          5 \<le> weekday_ord d \<or> d \<in> toordinal ` set (holidays S))
   \<and> ((\<exists>d. anchor_candidate S y - 6 \<le> d \<and> d \<le> anchor_candidate S y
            \<and> weekday_ord d < 5 \<and> d \<notin> toordinal ` set (holidays S))
        \<longrightarrow> anchor_candidate S y - anchor_for_year S y \<le> 6)"
proof -
  define hs where "hs = map toordinal (holidays S)"
  define c where "c = anchor_candidate S y"
  have a: "anchor_for_year S y = step_back hs c" and s: "toordinal ` set (holidays S) = set hs"
    by (simp_all add: anchor_for_year_def hs_def c_def)
  have "step_back hs c \<le> c" by (rule step_back_le)
  moreover have "0 \<le> weekday_ord (step_back hs c)" using weekday_ord_range by simp
  moreover have "weekday_ord (step_back hs c) < 5" "step_back hs c \<notin> set hs"
    using step_back_business_day [of hs c] by simp_all
  moreover have "\<forall>d. step_back hs c < d \<and> d \<le> c \<longrightarrow> 5 \<le> weekday_ord d \<or> d \<in> set hs"
    using step_back_skipped [of hs c] by blast
  moreover have "(\<exists>d. c - 6 \<le> d \<and> d \<le> c \<and> weekday_ord d < 5 \<and> d \<notin> set hs)
        \<longrightarrow> c - step_back hs c \<le> 6"
  proof
    assume "\<exists>d. c - 6 \<le> d \<and> d \<le> c \<and> weekday_ord d < 5 \<and> d \<notin> set hs"
    then obtain d where d: "c - 6 \<le> d" "d \<le> c" "weekday_ord d < 5" "d \<notin> set hs" by blast
    from step_back_latest [OF d(2,3,4)] d(1) show "c - step_back hs c \<le> 6" by simp
  qed
  ultimately show ?thesis unfolding a s c_def [symmetric] by blast
qed

theorem anchor_snapping_witness:
  "anchor_candidate
     \<lparr>exec_date = \<lparr>year = 2025, month = 1, day = 11\<rparr>, n_splits = 7,
      holidays = [\<lparr>year = 2024, month = 1, day = 12\<rparr>], test_size = 42, min_date = None,
      wk = 5, ord_in_month = 2\<rparr> 2024 = toordinal \<lparr>year = 2024, month = 1, day = 13\<rparr>
   \<and> anchor_for_year
     \<lparr>exec_date = \<lparr>year = 2025, month = 1, day = 11\<rparr>, n_splits = 7,
      holidays = [\<lparr>year = 2024, month = 1, day = 12\<rparr>], test_size = 42, min_date = None,
      wk = 5, ord_in_month = 2\<rparr> 2024 = toordinal \<lparr>year = 2024, month = 1, day = 11\<rparr>
   \<and> weekday \<lparr>year = 2024, month = 1, day = 11\<rparr> = 3
   \<and> weekday \<lparr>year = 2024, month = 1, day = 12\<rparr> = 4
   \<and> weekday \<lparr>year = 2024, month = 1, day = 13\<rparr> = 5"
  using anchor_snapping
    [of "\<lparr>exec_date = \<lparr>year = 2025, month = 1, day = 11\<rparr>, n_splits = 7,
      holidays = [\<lparr>year = 2024, month = 1, day = 12\<rparr>], test_size = 42, min_date = None,
      wk = 5, ord_in_month = 2\<rparr>" 2024]
  by (simp add: anchor_for_year_def anchor_candidate_def calendar_defs step_back.simps)

section \<open>AnchorSplit: construction\<close>

text \<open>
  Claim C9 says that a \<open>test_size_bd\<close> of 0 or less is rejected at construction. The
  constructor accepts 0.
\<close>

theorem AnchorSplit_init_nonpositive_test_size_counterexample:
  "\<not> isl (AnchorSplit_init \<lparr>year = 2025, month = 1, day = 10\<rparr> 7 [] 0 None)"
  by (simp add: AnchorSplit_init_def calendar_defs)

text \<open>
  Claim C9, as amended. Construction checks nothing about \<open>test_size_bd\<close>: whenever the
  execution date and the minimum date, if given, are calendar dates, it produces a
  splitter that holds \<open>test_size_bd\<close> unchanged as its test size, also when it is 0 or
  negative.
\<close>

theorem AnchorSplit_init_accepts_any_test_size:
  "valid_date e \<and> (case md of None \<Rightarrow> True | Some m \<Rightarrow> valid_date m) \<longrightarrow>
     (\<exists>S. AnchorSplit_init e n hs t md = Inr S \<and> test_size S = t)"
  by (auto simp: AnchorSplit_init_def split: option.splits)

theorem AnchorSplit_init_accepts_any_test_size_witness:
  "valid_date \<lparr>year = 2025, month = 1, day = 10\<rparr>
   \<and> (\<exists>S. AnchorSplit_init \<lparr>year = 2025, month = 1, day = 10\<rparr> 7 [] (- 3) None = Inr S
          \<and> test_size S = - 3)"
proof -
  have v: "valid_date \<lparr>year = 2025, month = 1, day = 10\<rparr>" by (simp add: calendar_defs)
  with AnchorSplit_init_accepts_any_test_size
    [of "\<lparr>year = 2025, month = 1, day = 10\<rparr>" None 7 "[]" "- 3"]
  show ?thesis by simp
qed

section \<open>AnchorSplit: the loop of split\<close>

lemma folds_of_append: "folds_of (xs @ ys) = folds_of xs @ folds_of ys"
  by (induction xs rule: folds_of.induct) simp_all

lemma warnings_of_append: "warnings_of (xs @ ys) = warnings_of xs @ warnings_of ys"
  by (induction xs rule: warnings_of.induct) simp_all

lemma errors_of_append: "errors_of (xs @ ys) = errors_of xs @ errors_of ys"
  by (induction xs rule: errors_of.induct) simp_all

lemma np_where_iff: "i \<in> set (np_where p xs) \<longleftrightarrow> i < length xs \<and> p (xs ! i)"
  by (auto simp: np_where_def)

lemma np_where_empty: "np_where p xs = [] \<longleftrightarrow> (\<forall>i < length xs. \<not> p (xs ! i))"
  by (auto simp: np_where_def filter_empty_conv)

lemma split_loop_stop:
  "\<not> int k < n_splits S \<Longrightarrow> split_loop S bd dates k yr = []"
  by (simp add: split_loop.simps [of S bd dates k yr])

lemma split_loop_empty:
  "int k < n_splits S \<Longrightarrow> split_loop S bd [] k yr = [Raise IndexError]"
  by (simp add: split_loop.simps [of S bd "[]" k yr])

lemma split_loop_before_first:
  "int k < n_splits S \<Longrightarrow> \<not> year d0 \<le> yr \<Longrightarrow> split_loop S bd (d0 # ds) k yr = []"
  by (simp add: split_loop.simps [of S bd "d0 # ds" k yr])

lemma split_loop_break:
  "before_min_date S (anchor_for_year S yr) \<Longrightarrow> dates \<noteq> [] \<Longrightarrow> split_loop S bd dates k yr = []"
  by (cases dates) (simp_all add: split_loop.simps [of S bd "_ # _" k yr])

lemma split_loop_skip:
  "int k < n_splits S \<Longrightarrow> dates = d0 # ds \<Longrightarrow> year d0 \<le> yr \<Longrightarrow>
   \<not> before_min_date S (anchor_for_year S yr) \<Longrightarrow>
   test_idx_of S bd dates (anchor_for_year S yr) = [] \<Longrightarrow>
   split_loop S bd dates k yr = split_loop S bd dates k (yr - 1)"
  by (simp add: split_loop.simps [of S bd "d0 # ds" k yr])

lemma split_loop_yield:
  "int k < n_splits S \<Longrightarrow> dates = d0 # ds \<Longrightarrow> year d0 \<le> yr \<Longrightarrow>
   \<not> before_min_date S (anchor_for_year S yr) \<Longrightarrow>
   test_idx_of S bd dates (anchor_for_year S yr) \<noteq> [] \<Longrightarrow>
   split_loop S bd dates k yr =
     low_train_warning (k + 1) (train_idx_of dates (anchor_for_year S yr))
     @ Yield (train_idx_of dates (anchor_for_year S yr))
             (test_idx_of S bd dates (anchor_for_year S yr))
     # split_loop S bd dates (k + 1) (yr - 1)"
  by (simp add: split_loop.simps [of S bd "d0 # ds" k yr] low_train_warning_def)

lemma split_loop_cases [case_names stop empty before_first break skip yield]:
  assumes "\<not> int k < n_splits S \<Longrightarrow> P"
    and "int k < n_splits S \<Longrightarrow> dates = [] \<Longrightarrow> P"
    and "\<And>d0 ds. int k < n_splits S \<Longrightarrow> dates = d0 # ds \<Longrightarrow> \<not> year d0 \<le> yr \<Longrightarrow> P"
    and "\<And>d0 ds. int k < n_splits S \<Longrightarrow> dates = d0 # ds \<Longrightarrow> year d0 \<le> yr \<Longrightarrow>
           before_min_date S (anchor_for_year S yr) \<Longrightarrow> P"
    and "\<And>d0 ds. int k < n_splits S \<Longrightarrow> dates = d0 # ds \<Longrightarrow> year d0 \<le> yr \<Longrightarrow>
           \<not> before_min_date S (anchor_for_year S yr) \<Longrightarrow>
           test_idx_of S bd dates (anchor_for_year S yr) = [] \<Longrightarrow> P"
    and "\<And>d0 ds. int k < n_splits S \<Longrightarrow> dates = d0 # ds \<Longrightarrow> year d0 \<le> yr \<Longrightarrow>
           \<not> before_min_date S (anchor_for_year S yr) \<Longrightarrow>
           test_idx_of S bd dates (anchor_for_year S yr) \<noteq> [] \<Longrightarrow> P"
  shows P
  using assms by (cases dates) blast+

lemma folds_of_low_train_warning [simp]: "folds_of (low_train_warning k tr) = []"
  by (simp add: low_train_warning_def)

lemma errors_of_low_train_warning [simp]: "errors_of (low_train_warning k tr) = []"
  by (simp add: low_train_warning_def)

text \<open>Where a yielded fold comes from.\<close>

lemma split_loop_fold_origin:
  "(tr, te) \<in> set (folds_of (split_loop S bd dates k yr)) \<Longrightarrow>
     \<exists>y. y \<le> yr \<and> (\<forall>y'. y \<le> y' \<and> y' \<le> yr \<longrightarrow> \<not> before_min_date S (anchor_for_year S y'))
        \<and> tr = train_idx_of dates (anchor_for_year S y)
        \<and> te = test_idx_of S bd dates (anchor_for_year S y) \<and> te \<noteq> []"
proof (induction S bd dates k yr rule: split_loop.induct)
  case (1 S bd dates k yr)
  show ?case
  proof (cases rule: split_loop_cases [where k = k and S = S and dates = dates and yr = yr and bd = bd])
    case stop
    with "1.prems" show ?thesis by (simp add: split_loop_stop)
  next
    case empty
    with "1.prems" show ?thesis by (simp add: split_loop_empty)
  next
    case (before_first d0 ds)
    with "1.prems" show ?thesis by (simp add: split_loop_before_first)
  next
    case (break d0 ds)
    with "1.prems" show ?thesis by (simp add: split_loop_break)
  next
    case (skip d0 ds)
    with "1.prems" have "(tr, te) \<in> set (folds_of (split_loop S bd dates k (yr - 1)))"
      by (simp add: split_loop_skip)
    with "1.IH"(1) skip obtain y where y: "y \<le> yr - 1"
      "\<forall>y'. y \<le> y' \<and> y' \<le> yr - 1 \<longrightarrow> \<not> before_min_date S (anchor_for_year S y')"
      "tr = train_idx_of dates (anchor_for_year S y)"
      "te = test_idx_of S bd dates (anchor_for_year S y)" "te \<noteq> []"
      by blast
    have "\<forall>y'. y \<le> y' \<and> y' \<le> yr \<longrightarrow> \<not> before_min_date S (anchor_for_year S y')"
    proof (intro allI impI)
      fix y' assume "y \<le> y' \<and> y' \<le> yr"
      then have "y' = yr \<or> (y \<le> y' \<and> y' \<le> yr - 1)" by arith
      with y(2) skip(4) show "\<not> before_min_date S (anchor_for_year S y')" by blast
    qed
    with y show ?thesis by (intro exI [of _ y]) simp
  next
    case (yield d0 ds)
    from "1.prems" yield
    have "(tr, te) = (train_idx_of dates (anchor_for_year S yr),
                      test_idx_of S bd dates (anchor_for_year S yr))
          \<or> (tr, te) \<in> set (folds_of (split_loop S bd dates (k + 1) (yr - 1)))"
      by (simp add: split_loop_yield folds_of_append)
    then show ?thesis
    proof
      assume "(tr, te) = (train_idx_of dates (anchor_for_year S yr),
                      test_idx_of S bd dates (anchor_for_year S yr))"
      moreover from yield(4)
      have "\<forall>y'. yr \<le> y' \<and> y' \<le> yr \<longrightarrow> \<not> before_min_date S (anchor_for_year S y')"
        by (auto simp: order.antisym)
      ultimately show ?thesis using yield(5) by (intro exI [of _ yr]) simp
    next
      assume "(tr, te) \<in> set (folds_of (split_loop S bd dates (k + 1) (yr - 1)))"
      with "1.IH"(2) yield obtain y where y: "y \<le> yr - 1"
        "\<forall>y'. y \<le> y' \<and> y' \<le> yr - 1 \<longrightarrow> \<not> before_min_date S (anchor_for_year S y')"
        "tr = train_idx_of dates (anchor_for_year S y)"
        "te = test_idx_of S bd dates (anchor_for_year S y)" "te \<noteq> []"
        by blast
      have "\<forall>y'. y \<le> y' \<and> y' \<le> yr \<longrightarrow> \<not> before_min_date S (anchor_for_year S y')"
      proof (intro allI impI)
        fix y' assume "y \<le> y' \<and> y' \<le> yr"
        then have "y' = yr \<or> (y \<le> y' \<and> y' \<le> yr - 1)" by arith
        with y(2) yield(4) show "\<not> before_min_date S (anchor_for_year S y')" by blast
      qed
      with y show ?thesis by (intro exI [of _ y]) simp
    qed
  qed
qed

lemma split_loop_count:
  "length (folds_of (split_loop S bd dates k yr)) \<le> nat (n_splits S - int k)"
proof (induction S bd dates k yr rule: split_loop.induct)
  case (1 S bd dates k yr)
  show ?case
  proof (cases rule: split_loop_cases [where k = k and S = S and dates = dates and yr = yr and bd = bd])
    case stop
    then show ?thesis by (simp add: split_loop_stop)
  next
    case empty
    then show ?thesis by (simp add: split_loop_empty)
  next
    case (before_first d0 ds)
    then show ?thesis by (simp add: split_loop_before_first)
  next
    case (break d0 ds)
    then show ?thesis by (simp add: split_loop_break)
  next
    case (skip d0 ds)
    with "1.IH"(1) show ?thesis by (simp add: split_loop_skip)
  next
    case (yield d0 ds)
    with "1.IH"(2)
    have "length (folds_of (split_loop S bd dates (k + 1) (yr - 1))) \<le> nat (n_splits S - int (k + 1))"
      by simp
    moreover from yield(1) have "Suc (nat (n_splits S - int (k + 1))) = nat (n_splits S - int k)"
      by simp
    ultimately show ?thesis using yield by (simp add: split_loop_yield folds_of_append)
  qed
qed

lemma split_loop_count_years:
  "before_min_date S (anchor_for_year S y) \<Longrightarrow> y \<le> yr \<Longrightarrow>
     length (folds_of (split_loop S bd dates k yr)) \<le> nat (yr - y)"
proof (induction S bd dates k yr rule: split_loop.induct)
  case (1 S bd dates k yr)
  show ?case
  proof (cases rule: split_loop_cases [where k = k and S = S and dates = dates and yr = yr and bd = bd])
    case stop
    then show ?thesis by (simp add: split_loop_stop)
  next
    case empty
    then show ?thesis by (simp add: split_loop_empty)
  next
    case (before_first d0 ds)
    then show ?thesis by (simp add: split_loop_before_first)
  next
    case (break d0 ds)
    then show ?thesis by (simp add: split_loop_break)
  next
    case (skip d0 ds)
    with "1.prems" have "y \<noteq> yr" by auto
    with "1.prems" have "y \<le> yr - 1" by simp
    with "1.IH"(1) skip "1.prems"(1)
    have "length (folds_of (split_loop S bd dates k (yr - 1))) \<le> nat (yr - 1 - y)" by simp
    also have "\<dots> \<le> nat (yr - y)" by simp
    finally show ?thesis using skip by (simp add: split_loop_skip)
  next
    case (yield d0 ds)
    with "1.prems" have "y \<noteq> yr" by auto
    with "1.prems" have y1: "y \<le> yr - 1" by simp
    with "1.IH"(2) yield "1.prems"(1)
    have "length (folds_of (split_loop S bd dates (k + 1) (yr - 1))) \<le> nat (yr - 1 - y)" by simp
    moreover from y1 have "Suc (nat (yr - 1 - y)) = nat (yr - y)" by simp
    ultimately show ?thesis using yield by (simp add: split_loop_yield folds_of_append)
  qed
qed

lemma split_loop_errors:
  "errors_of (split_loop S bd dates k yr) =
     (if int k < n_splits S \<and> dates = [] then [IndexError] else [])"
proof (induction S bd dates k yr rule: split_loop.induct)
  case (1 S bd dates k yr)
  show ?case
  proof (cases rule: split_loop_cases [where k = k and S = S and dates = dates and yr = yr and bd = bd])
    case stop
    then show ?thesis by (simp add: split_loop_stop)
  next
    case empty
    then show ?thesis by (simp add: split_loop_empty)
  next
    case (before_first d0 ds)
    then show ?thesis by (simp add: split_loop_before_first)
  next
    case (break d0 ds)
    then show ?thesis by (simp add: split_loop_break)
  next
    case (skip d0 ds)
    with "1.IH"(1) show ?thesis by (simp add: split_loop_skip)
  next
    case (yield d0 ds)
    with "1.IH"(2) show ?thesis by (simp add: split_loop_yield errors_of_append)
  qed
qed

lemma split_loop_trace:
  "dates \<noteq> [] \<Longrightarrow>
   split_loop S bd dates k yr =
     concat (map fold_events (List.enumerate (Suc k) (folds_of (split_loop S bd dates k yr))))"
proof (induction S bd dates k yr rule: split_loop.induct)
  case (1 S bd dates k yr)
  show ?case
  proof (cases rule: split_loop_cases [where k = k and S = S and dates = dates and yr = yr and bd = bd])
    case stop
    then show ?thesis by (simp add: split_loop_stop)
  next
    case empty
    with "1.prems" show ?thesis by simp
  next
    case (before_first d0 ds)
    then show ?thesis by (simp add: split_loop_before_first)
  next
    case (break d0 ds)
    then show ?thesis by (simp add: split_loop_break)
  next
    case (skip d0 ds)
    with "1.IH"(1) "1.prems" show ?thesis by (simp add: split_loop_skip)
  next
    case (yield d0 ds)
    with "1.IH"(2) "1.prems"
    have "split_loop S bd dates (k + 1) (yr - 1) =
      concat (map fold_events
        (List.enumerate (Suc (k + 1)) (folds_of (split_loop S bd dates (k + 1) (yr - 1)))))"
      by simp
    then show ?thesis
      using yield by (simp add: split_loop_yield folds_of_append fold_events_def)
  qed
qed

lemma split_loop_trace_errors:
  "split_loop S bd dates k yr =
     concat (map fold_events (List.enumerate (Suc k) (folds_of (split_loop S bd dates k yr))))
     @ map Raise (errors_of (split_loop S bd dates k yr))"
proof (cases "dates = []")
  case True
  then show ?thesis
    by (cases "int k < n_splits S") (simp_all add: split_loop_empty split_loop_stop)
next
  case False
  then have "errors_of (split_loop S bd dates k yr) = []" by (simp add: split_loop_errors)
  with split_loop_trace [OF False, of S bd k yr] show ?thesis by simp
qed

lemma AnchorSplit_split_Inl:
  "DatetimeIndex X = Inl e \<Longrightarrow> AnchorSplit_split S DatetimeIndex bd X = [Raise e]"
  by (simp add: AnchorSplit_split_def)

lemma AnchorSplit_split_dtype:
  "DatetimeIndex X = Inr ix \<Longrightarrow> issubdtype_datetime64 (dtype ix) \<noteq> Inr True \<Longrightarrow>
     AnchorSplit_split S DatetimeIndex bd X =
       [Raise (case issubdtype_datetime64 (dtype ix) of Inl e \<Rightarrow> e | Inr b \<Rightarrow> ValueError)]"
  by (simp add: AnchorSplit_split_def split: sum.splits)

lemma AnchorSplit_split_loop:
  "DatetimeIndex X = Inr ix \<Longrightarrow> issubdtype_datetime64 (dtype ix) = Inr True \<Longrightarrow>
     AnchorSplit_split S DatetimeIndex bd X = split_loop S bd (vals ix) 0 (year (exec_date S) - 1)"
  by (simp add: AnchorSplit_split_def)

lemma AnchorSplit_split_cases [case_names raised dtype loop]:
  assumes "\<And>e. DatetimeIndex X = Inl e \<Longrightarrow> P"
    and "\<And>ix. DatetimeIndex X = Inr ix \<Longrightarrow> issubdtype_datetime64 (dtype ix) \<noteq> Inr True \<Longrightarrow> P"
    and "\<And>ix. DatetimeIndex X = Inr ix \<Longrightarrow> issubdtype_datetime64 (dtype ix) = Inr True \<Longrightarrow> P"
  shows P
  using assms by (cases "DatetimeIndex X") blast+

lemma AnchorSplit_split_trace:
  "AnchorSplit_split S DatetimeIndex bd X =
     concat (map fold_events (List.enumerate 1 (folds_of (AnchorSplit_split S DatetimeIndex bd X))))
     @ map Raise (errors_of (AnchorSplit_split S DatetimeIndex bd X))"
proof (cases rule: AnchorSplit_split_cases [where DatetimeIndex = DatetimeIndex and X = X])
  case (raised e)
  then show ?thesis by (simp add: AnchorSplit_split_Inl)
next
  case (dtype ix)
  then show ?thesis by (simp add: AnchorSplit_split_dtype)
next
  case (loop ix)
  then show ?thesis
    using split_loop_trace_errors [of S bd "vals ix" 0 "year (exec_date S) - 1"]
    by (simp add: AnchorSplit_split_loop)
qed

lemma warnings_of_fold_events:
  "warnings_of (concat (map fold_events en)) =
     map (\<lambda>(i, tr, te). (i, length tr)) (filter (\<lambda>(i, tr, te). length tr < 252) en)"
  by (induction en)
    (auto simp: fold_events_def low_train_warning_def warnings_of_append)

lemma warnings_of_Raise [simp]: "warnings_of (map Raise es) = []"
  by (induction es) simp_all

lemma folds_of_Raise [simp]: "folds_of (map Raise es) = []"
  by (induction es) simp_all

lemma filter_enumerate_index:
  "filter (\<lambda>p. fst p = n + i) (List.enumerate n xs) =
     (if i < length xs then [(n + i, xs ! i)] else [])"
proof (induction xs arbitrary: n i)
  case Nil
  then show ?case by simp
next
  case (Cons x xs)
  show ?case
  proof (cases i)
    case 0
    have "filter (\<lambda>p. fst p = n) (List.enumerate (Suc n) xs) = []"
      by (auto simp: filter_empty_conv in_set_enumerate_eq)
    with 0 show ?thesis by simp
  next
    case (Suc j)
    with Cons.IH [of "Suc n" j] show ?thesis by simp
  qed
qed

section \<open>AnchorSplit: concrete runs\<close>

lemma second_friday_init:
  "AnchorSplit_init \<lparr>year = 2025, month = 1, day = 10\<rparr> 7 [] 5
     (Some \<lparr>year = 2023, month = 6, day = 1\<rparr>) = Inr second_friday"
  by (simp add: AnchorSplit_init_def second_friday_def calendar_defs)

lemma second_friday_anchors:
  "anchor_for_year second_friday 2024 = 738897"
  "anchor_for_year second_friday 2023 = 738533"
  by (simp_all add: anchor_for_year_def anchor_candidate_def second_friday_def calendar_defs
      step_back.simps)

lemma four_dates_ordinals:
  "map toordinal four_dates = [738169, 738533, 738897, 738900]"
  by (simp add: four_dates_def calendar_defs)

lemma busday_5: "busday_offset 4 [] 738897 = 738903"
  by (simp add: busday_offset_def step_back.simps roll_forward.simps weekday_ord_def
      eval_nat_numeral)

lemma run_four_dates:
  "AnchorSplit_split second_friday index_of_dates busday_offset four_dates =
     [Warn 1 2, Yield [0, 1] [2, 3]]"
  using four_dates_ordinals
  by (simp add: AnchorSplit_split_def index_of_dates_def issubdtype_datetime64_def
      split_loop.simps second_friday_anchors before_min_date_def test_idx_of_def train_idx_of_def
      np_where_def busday_5 upt_rec
      second_friday_def [THEN arg_cong [where f = n_splits]]
      second_friday_def [THEN arg_cong [where f = exec_date]]
      second_friday_def [THEN arg_cong [where f = min_date]]
      second_friday_def [THEN arg_cong [where f = test_size]]
      second_friday_def [THEN arg_cong [where f = holidays]]
      four_dates_def calendar_defs)

lemma second_friday_no_floor_anchors:
  "anchor_for_year second_friday_no_floor 2024 = 738897"
  "anchor_for_year second_friday_no_floor 2023 = 738533"
  by (simp_all add: anchor_for_year_def anchor_candidate_def second_friday_no_floor_def
      second_friday_def calendar_defs step_back.simps)

lemma two_dates_ordinals: "map toordinal two_dates = [738533, 738672]"
  by (simp add: two_dates_def calendar_defs)

lemma busday_5_2023: "busday_offset 4 [] 738533 = 738539"
  by (simp add: busday_offset_def step_back.simps roll_forward.simps weekday_ord_def
      eval_nat_numeral)

lemmas second_friday_no_floor_fields =
  second_friday_no_floor_def [THEN arg_cong [where f = n_splits]]
  second_friday_no_floor_def [THEN arg_cong [where f = exec_date]]
  second_friday_no_floor_def [THEN arg_cong [where f = min_date]]
  second_friday_no_floor_def [THEN arg_cong [where f = test_size]]
  second_friday_no_floor_def [THEN arg_cong [where f = holidays]]

lemma run_two_dates_2023:
  "split_loop second_friday_no_floor busday_offset two_dates 0 2023 = [Warn 1 0, Yield [] [0]]"
  using two_dates_ordinals
  by (simp add: split_loop.simps second_friday_no_floor_anchors before_min_date_def
      test_idx_of_def train_idx_of_def np_where_def busday_5_2023 upt_rec
      second_friday_no_floor_fields second_friday_def two_dates_def calendar_defs)

section \<open>AnchorSplit: years with no test data\<close>

text \<open>
  Claim C7. In a pass of the loop for a year (the loop condition holds and the anchor is
  not before the minimum date), whenever no position of the index has a date in the
  inclusive window from the anchor to the end of the test window, the pass emits nothing,
  no error, no warning and no fold, and the loop goes on with the year before and the
  same fold counter: the trace from this year is the trace from the year before.
\<close>

theorem empty_test_window_skipped:
  assumes "int folds < n_splits S" and "dates = d0 # ds" and "year d0 \<le> yr"
    and "\<not> before_min_date S (anchor_for_year S yr)"
    and "\<forall>i < length dates.
           \<not> (anchor_for_year S yr \<le> toordinal (dates ! i)
              \<and> toordinal (dates ! i)
                  \<le> CustomBusinessDay (test_size S - 1) (holidays S) (anchor_for_year S yr))"
  shows "split_loop S CustomBusinessDay dates folds yr =
           split_loop S CustomBusinessDay dates folds (yr - 1)"
proof -
  from assms(5) have "test_idx_of S CustomBusinessDay dates (anchor_for_year S yr) = []"
    by (simp add: test_idx_of_def np_where_empty)
  with assms(1-4) show ?thesis by (rule split_loop_skip)
qed

theorem empty_test_window_skipped_witness:
  "test_idx_of second_friday_no_floor busday_offset two_dates
     (anchor_for_year second_friday_no_floor 2024) = []
   \<and> split_loop second_friday_no_floor busday_offset two_dates 0 2024 =
       split_loop second_friday_no_floor busday_offset two_dates 0 2023
   \<and> split_loop second_friday_no_floor busday_offset two_dates 0 2024 = [Warn 1 0, Yield [] [0]]"
proof -
  have e: "test_idx_of second_friday_no_floor busday_offset two_dates
     (anchor_for_year second_friday_no_floor 2024) = []"
    using two_dates_ordinals
    by (simp add: second_friday_no_floor_anchors test_idx_of_def np_where_def busday_5 upt_rec
        second_friday_no_floor_fields second_friday_def two_dates_def)
  have h1: "int 0 < n_splits second_friday_no_floor"
    by (simp add: second_friday_no_floor_def second_friday_def)
  have h2: "two_dates = \<lparr>year = 2023, month = 1, day = 13\<rparr> # [\<lparr>year = 2023, month = 6, day = 1\<rparr>]"
    by (simp add: two_dates_def)
  have h3: "year \<lparr>year = 2023, month = 1, day = 13\<rparr> \<le> 2024" by simp
  have h4: "\<not> before_min_date second_friday_no_floor (anchor_for_year second_friday_no_floor 2024)"
    by (simp add: before_min_date_def second_friday_no_floor_def)
  have h5: "\<forall>i < length two_dates.
           \<not> (anchor_for_year second_friday_no_floor 2024 \<le> toordinal (two_dates ! i)
              \<and> toordinal (two_dates ! i)
                  \<le> busday_offset (test_size second_friday_no_floor - 1)
                       (holidays second_friday_no_floor)
                       (anchor_for_year second_friday_no_floor 2024))"
    using e by (simp add: test_idx_of_def np_where_empty)
  from empty_test_window_skipped [where CustomBusinessDay = busday_offset, OF h1 h2 h3 h4 h5]
    e run_two_dates_2023
  show ?thesis by simp
qed

section \<open>AnchorSplit: the number of folds\<close>

text \<open>
  Claim C2. \<^verbatim>\<open>AnchorSplit.split\<close> never yields more than \<open>n_splits\<close> folds (none when
  \<open>n_splits\<close> is negative). A pass of the loop whose anchor is strictly before the minimum
  date leaves the loop: from that pass on the trace is empty. So when the anchor of a year
  \<open>y\<close> of the walk (a year up to the one before the execution year) is before the minimum
  date, every yielded fold is the fold of a year after \<open>y\<close>, and there are at most as many
  folds as years walked before \<open>y\<close>, which can be fewer than \<open>n_splits\<close>.
\<close>

theorem fold_count_ceiling:
  "length (folds_of (AnchorSplit_split S DatetimeIndex CustomBusinessDay X)) \<le> nat (n_splits S)
   \<and> (\<forall>dates folds yr. dates \<noteq> [] \<and> before_min_date S (anchor_for_year S yr) \<longrightarrow>
          split_loop S CustomBusinessDay dates folds yr = [])
   \<and> (\<forall>y. y \<le> year (exec_date S) - 1 \<and> before_min_date S (anchor_for_year S y) \<longrightarrow>
          length (folds_of (AnchorSplit_split S DatetimeIndex CustomBusinessDay X))
            \<le> nat (year (exec_date S) - 1 - y)
          \<and> (\<forall>ix. DatetimeIndex X = Inr ix \<longrightarrow>
                (\<forall>(tr, te) \<in> set (folds_of (AnchorSplit_split S DatetimeIndex CustomBusinessDay X)).
                   \<exists>y'. y < y' \<and> y' \<le> year (exec_date S) - 1
                     \<and> tr = train_idx_of (vals ix) (anchor_for_year S y')
                     \<and> te = test_idx_of S CustomBusinessDay (vals ix) (anchor_for_year S y'))))"
proof (intro conjI allI impI)
  show "length (folds_of (AnchorSplit_split S DatetimeIndex CustomBusinessDay X)) \<le> nat (n_splits S)"
  proof (cases rule: AnchorSplit_split_cases [where DatetimeIndex = DatetimeIndex and X = X])
    case (raised e)
    then show ?thesis by (simp add: AnchorSplit_split_Inl)
  next
    case (dtype ix)
    then show ?thesis by (simp add: AnchorSplit_split_dtype)
  next
    case (loop ix)
    then show ?thesis
      using split_loop_count [of S CustomBusinessDay "vals ix" 0 "year (exec_date S) - 1"]
      by (simp add: AnchorSplit_split_loop)
  qed
next
  fix dates :: "date list" and folds yr
  assume "dates \<noteq> [] \<and> before_min_date S (anchor_for_year S yr)"
  then show "split_loop S CustomBusinessDay dates folds yr = []"
    by (simp add: split_loop_break)
next
  fix y
  assume y: "y \<le> year (exec_date S) - 1 \<and> before_min_date S (anchor_for_year S y)"
  show "length (folds_of (AnchorSplit_split S DatetimeIndex CustomBusinessDay X))
          \<le> nat (year (exec_date S) - 1 - y)"
  proof (cases rule: AnchorSplit_split_cases [where DatetimeIndex = DatetimeIndex and X = X])
    case (raised e)
    then show ?thesis by (simp add: AnchorSplit_split_Inl)
  next
    case (dtype ix)
    then show ?thesis by (simp add: AnchorSplit_split_dtype)
  next
    case (loop ix)
    then show ?thesis
      using y split_loop_count_years [of S y "year (exec_date S) - 1" CustomBusinessDay "vals ix" 0]
      by (simp add: AnchorSplit_split_loop)
  qed
next
  fix y ix
  assume y: "y \<le> year (exec_date S) - 1 \<and> before_min_date S (anchor_for_year S y)"
    and ix: "DatetimeIndex X = Inr ix"
  show "\<forall>(tr, te) \<in> set (folds_of (AnchorSplit_split S DatetimeIndex CustomBusinessDay X)).
           \<exists>y'. y < y' \<and> y' \<le> year (exec_date S) - 1
             \<and> tr = train_idx_of (vals ix) (anchor_for_year S y')
             \<and> te = test_idx_of S CustomBusinessDay (vals ix) (anchor_for_year S y')"
  proof (cases "issubdtype_datetime64 (dtype ix) = Inr True")
    case False
    with ix show ?thesis by (simp add: AnchorSplit_split_dtype)
  next
    case True
    show ?thesis
    proof (intro ballI, clarify)
      fix tr te
      assume "(tr, te) \<in> set (folds_of (AnchorSplit_split S DatetimeIndex CustomBusinessDay X))"
      with ix True
      have "(tr, te) \<in> set (folds_of (split_loop S CustomBusinessDay (vals ix) 0 (year (exec_date S) - 1)))"
        by (simp add: AnchorSplit_split_loop)
      from split_loop_fold_origin [OF this]
      obtain y' where y': "y' \<le> year (exec_date S) - 1"
        "\<forall>z. y' \<le> z \<and> z \<le> year (exec_date S) - 1 \<longrightarrow> \<not> before_min_date S (anchor_for_year S z)"
        "tr = train_idx_of (vals ix) (anchor_for_year S y')"
        "te = test_idx_of S CustomBusinessDay (vals ix) (anchor_for_year S y')"
        by blast
      from y'(2) y have "\<not> y' \<le> y" by blast
      with y' show "\<exists>y'. y < y' \<and> y' \<le> year (exec_date S) - 1
             \<and> tr = train_idx_of (vals ix) (anchor_for_year S y')
             \<and> te = test_idx_of S CustomBusinessDay (vals ix) (anchor_for_year S y')"
        by (intro exI [of _ y']) simp
    qed
  qed
qed

theorem fold_count_ceiling_witness:
  "before_min_date second_friday (anchor_for_year second_friday 2023)
   \<and> AnchorSplit_split second_friday index_of_dates busday_offset four_dates =
       [Warn 1 2, Yield [0, 1] [2, 3]]
   \<and> length (folds_of (AnchorSplit_split second_friday index_of_dates busday_offset four_dates)) \<le> 1
   \<and> n_splits second_friday = 7
   \<and> split_loop second_friday busday_offset four_dates 1 2023 = []"
proof -
  have b: "before_min_date second_friday (anchor_for_year second_friday 2023)"
    by (simp add: before_min_date_def second_friday_anchors calendar_defs
        second_friday_def [THEN arg_cong [where f = min_date]])
  have y: "(2023::int) \<le> year (exec_date second_friday) - 1"
    by (simp add: second_friday_def)
  have n: "four_dates \<noteq> []"
    by (simp add: four_dates_def)
  note t = fold_count_ceiling [of second_friday index_of_dates busday_offset four_dates]
  from t b y
  have 1: "length (folds_of (AnchorSplit_split second_friday index_of_dates busday_offset four_dates))
          \<le> nat (year (exec_date second_friday) - 1 - 2023)"
    by blast
  from t b n have 2: "split_loop second_friday busday_offset four_dates 1 2023 = []"
    by blast
  from 1 2 show ?thesis using b run_four_dates by (simp add: second_friday_def)
qed

section \<open>AnchorSplit: the check of the input\<close>

text \<open>
  Claim C6. The docstring of \<^verbatim>\<open>split\<close> asks for a datetime64 series, and its line 73
  raises \<^verbatim>\<open>X deve conter dtype datetime64[ns]\<close>; but the check reads the dtype of the index
  that \<^verbatim>\<open>pd.DatetimeIndex(X)\<close> has built, not the type of \<^verbatim>\<open>X\<close>, and the conversion
  gives the datetime dtype to what it converts. The list of the two integers
  1704931200000000000 and 1705017600000000000 is no date/time-typed input. The index
  built from it holds 11 and 12 January 2024 with the datetime dtype, the check passes,
  and the splitter made by \<^verbatim>\<open>AnchorSplit('2025-01-10', 7, [], 5)\<close> raises nothing: it warns
  for one train row and yields the fold of train position 0 and test position 1.
\<close>

theorem integer_input_yields_fold:
  "AnchorSplit_init \<lparr>year = 2025, month = 1, day = 10\<rparr> 7 [] 5 None = Inr second_friday_no_floor
   \<and> pd_DatetimeIndex (Integers [1704931200000000000, 1705017600000000000]) =
       Inr \<lparr>dtype = Datetime64,
            vals = [\<lparr>year = 2024, month = 1, day = 11\<rparr>, \<lparr>year = 2024, month = 1, day = 12\<rparr>]\<rparr>
   \<and> issubdtype_datetime64 Datetime64 = Inr True
   \<and> AnchorSplit_split second_friday_no_floor pd_DatetimeIndex busday_offset
         (Integers [1704931200000000000, 1705017600000000000]) = [Warn 1 1, Yield [0] [1]]
   \<and> errors_of (AnchorSplit_split second_friday_no_floor pd_DatetimeIndex busday_offset
         (Integers [1704931200000000000, 1705017600000000000])) = []"
proof -
  have i: "AnchorSplit_init \<lparr>year = 2025, month = 1, day = 10\<rparr> 7 [] 5 None =
      Inr second_friday_no_floor"
    by (simp add: AnchorSplit_init_def second_friday_no_floor_def second_friday_def calendar_defs)
  have p: "pd_DatetimeIndex (Integers [1704931200000000000, 1705017600000000000]) =
       Inr \<lparr>dtype = Datetime64,
            vals = [\<lparr>year = 2024, month = 1, day = 11\<rparr>, \<lparr>year = 2024, month = 1, day = 12\<rparr>]\<rparr>"
    by (simp add: pd_DatetimeIndex_def date_of_epoch_ns_def fromordinal_def Let_def calendar_defs)
  have t: "issubdtype_datetime64 Datetime64 = Inr True"
    by (simp add: issubdtype_datetime64_def)
  have o: "map toordinal [\<lparr>year = 2024, month = 1, day = 11\<rparr>, \<lparr>year = 2024, month = 1, day = 12\<rparr>]
      = [738896, 738897]"
    by (simp add: calendar_defs)
  have r: "split_loop second_friday_no_floor busday_offset
      [\<lparr>year = 2024, month = 1, day = 11\<rparr>, \<lparr>year = 2024, month = 1, day = 12\<rparr>] 0 2024 =
      [Warn 1 1, Yield [0] [1]]"
    using o
    by (simp add: split_loop.simps second_friday_no_floor_anchors before_min_date_def
        test_idx_of_def train_idx_of_def np_where_def busday_5 upt_rec
        second_friday_no_floor_fields second_friday_def)
  have "AnchorSplit_split second_friday_no_floor pd_DatetimeIndex busday_offset
         (Integers [1704931200000000000, 1705017600000000000]) = [Warn 1 1, Yield [0] [1]]"
    using r by (simp add: AnchorSplit_split_def p t second_friday_no_floor_fields second_friday_def)
  with i p t show ?thesis by simp
qed

section \<open>AnchorSplit: a run with 252 train rows\<close>

lemma np_where_Nil: "np_where p [] = []"
  by (simp add: np_where_def)

lemma np_where_Cons:
  "np_where p (x # xs) = (if p x then [0] else []) @ map Suc (np_where p xs)"
proof -
  have "[0..<Suc (length xs)] = 0 # [Suc 0..<Suc (length xs)]"
    by (rule upt_conv_Cons) simp
  also have "[Suc 0..<Suc (length xs)] = map Suc [0..<length xs]"
    by (simp only: map_Suc_upt)
  finally have "[0..<length (x # xs)] = 0 # map Suc [0..<length xs]" by simp
  then show ?thesis unfolding np_where_def by (simp add: filter_map comp_def)
qed

lemma np_where_append:
  "np_where p (xs @ ys) = np_where p xs @ map (\<lambda>i. length xs + i) (np_where p ys)"
  by (induction xs) (simp_all add: np_where_Nil np_where_Cons comp_def)

lemma np_where_replicate: "np_where p (replicate n x) = (if p x then [0..<n] else [])"
  by (induction n) (auto simp: np_where_Nil np_where_Cons map_Suc_upt upt_conv_Cons)

lemma long_index_ordinals:
  "toordinal \<lparr>year = 2023, month = 1, day = 2\<rparr> = 738522"
  "toordinal \<lparr>year = 2024, month = 1, day = 12\<rparr> = 738897"
  by (simp_all add: calendar_defs)

lemma upt_252: "0 # [Suc 0..<252] = [0..<252]"
  by (simp add: upt_conv_Cons)

lemma run_long_index:
  "AnchorSplit_split second_friday_no_floor index_of_dates busday_offset long_index =
     [Yield [0..<252] [252]]"
  by (simp add: AnchorSplit_split_def index_of_dates_def issubdtype_datetime64_def
      split_loop.simps second_friday_no_floor_anchors before_min_date_def test_idx_of_def
      train_idx_of_def np_where_Cons np_where_append np_where_replicate np_where_Nil
      busday_5 busday_5_2023 long_index_ordinals map_Suc_upt upt_252
      second_friday_no_floor_fields second_friday_def long_index_def)

section \<open>AnchorSplit: the warning for a short train set\<close>

text \<open>
  Claim C8. The trace of \<^verbatim>\<open>split\<close> is, for each yielded fold in order, numbered from 1,
  the warning with its number and its count of train rows if these are fewer than 252,
  then the fold itself; an error can only end it. So the warnings that carry the number
  of a fold are exactly one, with its row count, when it has fewer than 252 train rows,
  and none otherwise. With or without a warning, the fold holds the positions before the
  anchor of some year as train indices and the positions in its test window as test
  indices.
\<close>

theorem low_train_warning_per_fold:
  "AnchorSplit_split S DatetimeIndex CustomBusinessDay X =
     concat (map (\<lambda>(i, tr, te). low_train_warning i tr @ [Yield tr te])
       (List.enumerate 1 (folds_of (AnchorSplit_split S DatetimeIndex CustomBusinessDay X))))
     @ map Raise (errors_of (AnchorSplit_split S DatetimeIndex CustomBusinessDay X))
   \<and> (\<forall>i < length (folds_of (AnchorSplit_split S DatetimeIndex CustomBusinessDay X)).
        filter (\<lambda>w. fst w = i + 1)
          (warnings_of (AnchorSplit_split S DatetimeIndex CustomBusinessDay X)) =
        (let tr = fst (folds_of (AnchorSplit_split S DatetimeIndex CustomBusinessDay X) ! i)
         in if length tr < 252 then [(i + 1, length tr)] else []))
   \<and> (\<forall>ix. DatetimeIndex X = Inr ix \<longrightarrow>
        (\<forall>(tr, te) \<in> set (folds_of (AnchorSplit_split S DatetimeIndex CustomBusinessDay X)).
           \<exists>y. tr = train_idx_of (vals ix) (anchor_for_year S y)
             \<and> te = test_idx_of S CustomBusinessDay (vals ix) (anchor_for_year S y)))"
proof (intro conjI allI impI)
  define evs where "evs = AnchorSplit_split S DatetimeIndex CustomBusinessDay X"
  have t: "evs = concat (map fold_events (List.enumerate 1 (folds_of evs))) @ map Raise (errors_of evs)"
    unfolding evs_def by (rule AnchorSplit_split_trace)
  then show "evs = concat (map (\<lambda>(i, tr, te). low_train_warning i tr @ [Yield tr te])
       (List.enumerate 1 (folds_of evs))) @ map Raise (errors_of evs)"
    by (simp add: fold_events_def)
  have w: "warnings_of evs =
     map (\<lambda>(i, tr, te). (i, length tr))
       (filter (\<lambda>(i, tr, te). length tr < 252) (List.enumerate 1 (folds_of evs)))"
    by (subst t) (simp add: warnings_of_append warnings_of_fold_events)
  fix i assume i: "i < length (folds_of evs)"
  have f: "filter (\<lambda>p. fst p = 1 + i) (List.enumerate 1 (folds_of evs)) = [(1 + i, folds_of evs ! i)]"
    using filter_enumerate_index [of 1 i "folds_of evs"] i by simp
  have "filter (\<lambda>w. fst w = i + 1) (warnings_of evs) =
     map (\<lambda>(i, tr, te). (i, length tr))
       (filter (\<lambda>(i, tr, te). length tr < 252)
          (filter (\<lambda>p. fst p = 1 + i) (List.enumerate 1 (folds_of evs))))"
    unfolding w by (simp add: filter_map comp_def case_prod_beta conj_commute)
  also have "\<dots> = (let tr = fst (folds_of evs ! i)
         in if length tr < 252 then [(i + 1, length tr)] else [])"
    unfolding f by (simp add: Let_def case_prod_beta)
  finally show "filter (\<lambda>w. fst w = i + 1) (warnings_of evs) =
        (let tr = fst (folds_of evs ! i)
         in if length tr < 252 then [(i + 1, length tr)] else [])" .
next
  fix ix assume ix: "DatetimeIndex X = Inr ix"
  show "\<forall>(tr, te) \<in> set (folds_of (AnchorSplit_split S DatetimeIndex CustomBusinessDay X)).
           \<exists>y. tr = train_idx_of (vals ix) (anchor_for_year S y)
             \<and> te = test_idx_of S CustomBusinessDay (vals ix) (anchor_for_year S y)"
  proof (cases "issubdtype_datetime64 (dtype ix) = Inr True")
    case False
    with ix show ?thesis by (simp add: AnchorSplit_split_dtype)
  next
    case True
    show ?thesis
    proof (intro ballI, clarify)
      fix tr te
      assume "(tr, te) \<in> set (folds_of (AnchorSplit_split S DatetimeIndex CustomBusinessDay X))"
      with ix True
      have "(tr, te) \<in> set (folds_of (split_loop S CustomBusinessDay (vals ix) 0 (year (exec_date S) - 1)))"
        by (simp add: AnchorSplit_split_loop)
      from split_loop_fold_origin [OF this]
      show "\<exists>y. tr = train_idx_of (vals ix) (anchor_for_year S y)
             \<and> te = test_idx_of S CustomBusinessDay (vals ix) (anchor_for_year S y)"
        by blast
    qed
  qed
qed

theorem low_train_warning_per_fold_witness:
  "AnchorSplit_split second_friday index_of_dates busday_offset four_dates =
     [Warn 1 2, Yield [0, 1] [2, 3]]
   \<and> filter (\<lambda>w. fst w = 1)
        (warnings_of (AnchorSplit_split second_friday index_of_dates busday_offset four_dates)) =
       [(1, 2)]
   \<and> AnchorSplit_split second_friday_no_floor index_of_dates busday_offset long_index =
       [Yield [0..<252] [252]]
   \<and> filter (\<lambda>w. fst w = 1)
        (warnings_of
          (AnchorSplit_split second_friday_no_floor index_of_dates busday_offset long_index)) = []
   \<and> (\<exists>y. [0, 1] = train_idx_of four_dates (anchor_for_year second_friday y)
          \<and> [2, 3] = test_idx_of second_friday busday_offset four_dates
                        (anchor_for_year second_friday y))"
proof -
  have i: "index_of_dates four_dates = Inr \<lparr>dtype = Datetime64, vals = four_dates\<rparr>"
    by (simp add: index_of_dates_def)
  from low_train_warning_per_fold [of second_friday index_of_dates busday_offset four_dates] i
  have "\<forall>(tr, te) \<in> set (folds_of
            (AnchorSplit_split second_friday index_of_dates busday_offset four_dates)).
           \<exists>y. tr = train_idx_of four_dates (anchor_for_year second_friday y)
             \<and> te = test_idx_of second_friday busday_offset four_dates
                        (anchor_for_year second_friday y)"
    by fastforce
  then have 3: "\<exists>y. [0, 1] = train_idx_of four_dates (anchor_for_year second_friday y)
          \<and> [2, 3] = test_idx_of second_friday busday_offset four_dates
                        (anchor_for_year second_friday y)"
    by (simp add: run_four_dates)
  from low_train_warning_per_fold [of second_friday index_of_dates busday_offset four_dates]
  have "\<forall>i < length (folds_of (AnchorSplit_split second_friday index_of_dates busday_offset four_dates)).
        filter (\<lambda>w. fst w = i + 1)
          (warnings_of (AnchorSplit_split second_friday index_of_dates busday_offset four_dates)) =
        (let tr = fst (folds_of (AnchorSplit_split second_friday index_of_dates busday_offset four_dates) ! i)
         in if length tr < 252 then [(i + 1, length tr)] else [])"
    by blast
  then have 1: "filter (\<lambda>w. fst w = 1)
        (warnings_of (AnchorSplit_split second_friday index_of_dates busday_offset four_dates)) =
       [(1, 2)]"
    by (simp add: run_four_dates)
  from low_train_warning_per_fold [of second_friday_no_floor index_of_dates busday_offset long_index]
  have "\<forall>i < length (folds_of (AnchorSplit_split second_friday_no_floor index_of_dates busday_offset long_index)).
        filter (\<lambda>w. fst w = i + 1)
          (warnings_of (AnchorSplit_split second_friday_no_floor index_of_dates busday_offset long_index)) =
        (let tr = fst (folds_of (AnchorSplit_split second_friday_no_floor index_of_dates busday_offset long_index) ! i)
         in if length tr < 252 then [(i + 1, length tr)] else [])"
    by blast
  then have 2: "filter (\<lambda>w. fst w = 1)
        (warnings_of
          (AnchorSplit_split second_friday_no_floor index_of_dates busday_offset long_index)) = []"
    by (simp add: run_long_index)
  from 1 2 3 run_four_dates run_long_index show ?thesis by simp
qed

section \<open>AnchorSplit: a fold with no train rows\<close>

text \<open>
  Claim C10. There is an input of dates on which \<^verbatim>\<open>split\<close> yields a fold with no train
  index: the two rows of this index are the anchor of 2024 and the business day after
  it, so both are in the test window of 2024 and no row is before the anchor. The trace
  is the warning for fold 1 with 0 rows and the fold, with empty train indices and both
  positions as test indices; no error is raised.
\<close>

theorem empty_train_fold_yielded:
  "list_all valid_date window_index
   \<and> AnchorSplit_split second_friday_no_floor index_of_dates busday_offset window_index =
       [Warn 1 0, Yield [] [0, 1]]"
proof -
  have "map toordinal window_index = [738897, 738900]"
    by (simp add: window_index_def calendar_defs)
  then have "AnchorSplit_split second_friday_no_floor index_of_dates busday_offset window_index =
       [Warn 1 0, Yield [] [0, 1]]"
    by (simp add: AnchorSplit_split_def index_of_dates_def issubdtype_datetime64_def
      split_loop.simps second_friday_no_floor_anchors before_min_date_def test_idx_of_def
      train_idx_of_def np_where_def busday_5 upt_rec
      second_friday_no_floor_fields second_friday_def window_index_def)
  moreover have "list_all valid_date window_index"
    by (simp add: window_index_def calendar_defs)
  ultimately show ?thesis by simp
qed

section \<open>MonthlyTimeSeriesSplit: buckets and folds\<close>

lemma set_unique [simp]: "set (unique xs) = set xs"
  by (induction xs) auto

lemma distinct_unique [simp]: "distinct (unique xs)"
  by (induction xs) auto

lemma sorted_unique: "sorted xs \<Longrightarrow> sorted (unique xs)"
  by (induction xs) (auto intro: sorted_wrt_filter)

lemma last_notin_butlast: "distinct xs \<Longrightarrow> xs \<noteq> [] \<Longrightarrow> last xs \<notin> set (butlast xs)"
proof -
  assume d: "distinct xs" and n: "xs \<noteq> []"
  from n have "xs = butlast xs @ [last xs]" by simp
  with d have "distinct (butlast xs @ [last xs])" by simp
  then show ?thesis by simp
qed

lemma kept_months_cases:
  assumes "kept_months S X = Inr um"
  shows "um = unique_months X \<or> (unique_months X \<noteq> [] \<and> um = butlast (unique_months X))"
  using assms by (auto simp: kept_months_def split: option.splits list.splits if_splits)

lemma kept_months_distinct: "kept_months S X = Inr um \<Longrightarrow> distinct um"
  by (auto dest!: kept_months_cases simp: unique_months_def distinct_butlast)

lemma kept_months_sorted:
  "kept_months S X = Inr um \<Longrightarrow> sorted (map (to_period_M \<circ> snd) X) \<Longrightarrow> sorted um"
  by (auto dest!: kept_months_cases simp: unique_months_def sorted_unique sorted_butlast)

lemma rows_in_iff: "l \<in> set (rows_in X ms) \<longleftrightarrow> (\<exists>d. (l, d) \<in> set X \<and> to_period_M d \<in> set ms)"
  by (force simp: rows_in_def)

lemma take_idx_Inr:
  "take_idx xs idx = Inr ys \<Longrightarrow> ys = map (\<lambda>i. xs ! i) idx \<and> (\<forall>i \<in> set idx. i < length xs)"
  by (auto simp: take_idx_def split: if_splits)

lemma month_folds_origin:
  "(tr, te) \<in> set (folds_of (month_folds um X err bfs)) \<Longrightarrow>
     \<exists>btr bte. (btr, bte) \<in> set bfs
       \<and> (\<forall>i \<in> set btr. i < length um) \<and> (\<forall>j \<in> set bte. j < length um)
       \<and> tr = rows_in X (map (\<lambda>i. um ! i) btr) \<and> te = rows_in X (map (\<lambda>i. um ! i) bte)"
proof (induction um X err bfs rule: month_folds.induct)
  case (1 um X err)
  then show ?case by (simp split: option.splits)
next
  case (2 um X err train_month_idx test_month_idx rest)
  show ?case
  proof (cases "take_idx um train_month_idx")
    case (Inl e)
    with "2.prems" show ?thesis by simp
  next
    case trn: (Inr train_months)
    show ?thesis
    proof (cases "take_idx um test_month_idx")
      case (Inl e)
      with trn "2.prems" show ?thesis by simp
    next
      case tst: (Inr test_months)
      from "2.prems" trn tst
      have "(tr, te) = (rows_in X train_months, rows_in X test_months)
            \<or> (tr, te) \<in> set (folds_of (month_folds um X err rest))"
        by simp
      then show ?thesis
      proof
        assume "(tr, te) = (rows_in X train_months, rows_in X test_months)"
        with take_idx_Inr [OF trn] take_idx_Inr [OF tst] show ?thesis
          by (intro exI [of _ train_month_idx] exI [of _ test_month_idx]) simp
      next
        assume "(tr, te) \<in> set (folds_of (month_folds um X err rest))"
        with "2.IH" [OF trn tst] show ?thesis by auto
      qed
    qed
  qed
qed

section \<open>No leakage\<close>

lemma period_mono:
  assumes "valid_date a" and "valid_date b" and "date_le a b"
  shows "to_period_M a \<le> to_period_M b"
proof -
  from assms(1,2) have m: "1 \<le> month a" "month a \<le> 12" "1 \<le> month b" "month b \<le> 12"
    by (simp_all add: valid_date_def)
  from assms(3) have "year a < year b \<or> (year a = year b \<and> month a \<le> month b)"
    by (auto simp: date_le_def date_less_def)
  with m show ?thesis unfolding to_period_M_def by arith
qed

lemma period_less_date_less:
  assumes "valid_date a" and "valid_date b" and "to_period_M a < to_period_M b"
  shows "date_less a b"
proof -
  from assms(1,2) have m: "1 \<le> month a" "month a \<le> 12" "1 \<le> month b" "month b \<le> 12"
    by (simp_all add: valid_date_def)
  with assms(3) have "year a < year b \<or> (year a = year b \<and> month a < month b)"
    unfolding to_period_M_def by arith
  then show ?thesis by (auto simp: date_less_def)
qed

lemma chronological_periods:
  assumes "\<forall>r \<in> set X. valid_date (snd r)" and "chronological (map snd X)"
  shows "sorted (map (to_period_M \<circ> snd) X)"
proof -
  from assms(2) have "sorted_wrt (\<lambda>r s. date_le (snd r) (snd s)) X"
    by (simp add: chronological_def sorted_wrt_map)
  then have "sorted_wrt (\<lambda>r s. to_period_M (snd r) \<le> to_period_M (snd s)) X"
  proof (rule sorted_wrt_mono_rel [rotated])
    fix r s assume "r \<in> set X" "s \<in> set X" "date_le (snd r) (snd s)"
    with assms(1) show "to_period_M (snd r) \<le> to_period_M (snd s)"
      by (simp add: period_mono)
  qed
  then show ?thesis by (simp add: sorted_wrt_map comp_def)
qed

lemma strictly_increasing_nth:
  assumes "sorted um" and "distinct um" and "i < j" and "j < length um"
  shows "um ! i < (um ! j :: int)"
proof -
  from assms(1,2) have "sorted_wrt (<) um" by (simp add: strict_sorted_iff)
  with assms(3,4) show ?thesis by (simp add: sorted_wrt_nth_less)
qed

lemma label_date:
  "distinct (map fst X) \<Longrightarrow> (l, d) \<in> set X \<Longrightarrow> (l, d') \<in> set X \<Longrightarrow> d = d'"
  by (rule eq_key_imp_eq_value)

lemma MonthlyTimeSeriesSplit_split_origin:
  assumes "(tr, te) \<in> set (folds_of (MonthlyTimeSeriesSplit_split S TimeSeriesSplit X))"
  obtains um btr bte where "kept_months S X = Inr um"
    and "(btr, bte) \<in> set (fst (month_splits S TimeSeriesSplit um))"
    and "\<forall>i \<in> set btr. i < length um" and "\<forall>j \<in> set bte. j < length um"
    and "tr = rows_in X (map (\<lambda>i. um ! i) btr)" and "te = rows_in X (map (\<lambda>i. um ! i) bte)"
proof (cases "kept_months S X")
  case (Inl e)
  with assms show ?thesis by (simp add: MonthlyTimeSeriesSplit_split_def)
next
  case (Inr um)
  with assms have "(tr, te) \<in> set (folds_of (month_folds um X
      (snd (month_splits S TimeSeriesSplit um)) (fst (month_splits S TimeSeriesSplit um))))"
    by (simp add: MonthlyTimeSeriesSplit_split_def)
  from month_folds_origin [OF this] Inr that show ?thesis by blast
qed

lemma monthly_fold_separated:
  assumes valid: "\<forall>r \<in> set X. valid_date (snd r)"
    and chrono: "chronological (map snd X)"
    and labels: "distinct (map fst X)"
    and delegate: "\<forall>um. test_after_train (fst (month_splits S TimeSeriesSplit um))"
    and fold: "(tr, te) \<in> set (folds_of (MonthlyTimeSeriesSplit_split S TimeSeriesSplit X))"
    and r: "r \<in> set X" "fst r \<in> set tr" and s: "s \<in> set X" "fst s \<in> set te"
  shows "to_period_M (snd r) < to_period_M (snd s)"
proof -
  from fold obtain um btr bte where um: "kept_months S X = Inr um"
    and b: "(btr, bte) \<in> set (fst (month_splits S TimeSeriesSplit um))"
    and rng: "\<forall>i \<in> set btr. i < length um" "\<forall>j \<in> set bte. j < length um"
    and tr: "tr = rows_in X (map (\<lambda>i. um ! i) btr)" and te: "te = rows_in X (map (\<lambda>i. um ! i) bte)"
    by (rule MonthlyTimeSeriesSplit_split_origin)
  from um valid chrono have so: "sorted um" "distinct um"
    by (simp_all add: kept_months_sorted kept_months_distinct chronological_periods)
  from r(2) tr obtain d where "(fst r, d) \<in> set X" "to_period_M d \<in> set (map (\<lambda>i. um ! i) btr)"
    by (auto simp: rows_in_iff)
  moreover from r(1) have "(fst r, snd r) \<in> set X" by simp
  ultimately have "to_period_M (snd r) \<in> set (map (\<lambda>i. um ! i) btr)"
    using label_date [OF labels] by blast
  then obtain i where i: "i \<in> set btr" "to_period_M (snd r) = um ! i" by auto
  from s(2) te obtain d' where "(fst s, d') \<in> set X" "to_period_M d' \<in> set (map (\<lambda>i. um ! i) bte)"
    by (auto simp: rows_in_iff)
  moreover from s(1) have "(fst s, snd s) \<in> set X" by simp
  ultimately have "to_period_M (snd s) \<in> set (map (\<lambda>i. um ! i) bte)"
    using label_date [OF labels] by blast
  then obtain j where j: "j \<in> set bte" "to_period_M (snd s) = um ! j" by auto
  from delegate have "test_after_train (fst (month_splits S TimeSeriesSplit um))" by simp
  with b i(1) j(1) have "i < j" unfolding test_after_train_def by fast
  moreover from rng j(1) have "j < length um" by simp
  ultimately have "um ! i < um ! j" using so by (simp add: strictly_increasing_nth)
  with i(2) j(2) show ?thesis by simp
qed

lemma monthly_fold_disjoint:
  assumes valid: "\<forall>r \<in> set X. valid_date (snd r)"
    and chrono: "chronological (map snd X)"
    and labels: "distinct (map fst X)"
    and delegate: "\<forall>um. test_after_train (fst (month_splits S TimeSeriesSplit um))"
    and fold: "(tr, te) \<in> set (folds_of (MonthlyTimeSeriesSplit_split S TimeSeriesSplit X))"
  shows "set tr \<inter> set te = {}"
proof (rule ccontr)
  assume "set tr \<inter> set te \<noteq> {}"
  then obtain l where l: "l \<in> set tr" "l \<in> set te" by blast
  from fold obtain um btr bte where
    tr: "tr = rows_in X (map (\<lambda>i. um ! i) btr)"
    by (rule MonthlyTimeSeriesSplit_split_origin)
  from l(1) tr obtain d where d: "(l, d) \<in> set X" by (auto simp: rows_in_iff)
  from monthly_fold_separated [OF valid chrono labels delegate fold d _ d] l
  show False by simp
qed

lemma anchor_fold_separated:
  assumes "DatetimeIndex X = Inr ix"
    and "(tr, te) \<in> set (folds_of (AnchorSplit_split S DatetimeIndex bd X))"
  shows "\<exists>y. (\<forall>i \<in> set tr. i < length (vals ix) \<and> toordinal (vals ix ! i) < anchor_for_year S y)
           \<and> (\<forall>j \<in> set te. j < length (vals ix) \<and> anchor_for_year S y \<le> toordinal (vals ix ! j))"
proof (cases "issubdtype_datetime64 (dtype ix) = Inr True")
  case False
  with assms show ?thesis by (simp add: AnchorSplit_split_dtype)
next
  case True
  with assms
  have "(tr, te) \<in> set (folds_of (split_loop S bd (vals ix) 0 (year (exec_date S) - 1)))"
    by (simp add: AnchorSplit_split_loop)
  from split_loop_fold_origin [OF this]
  obtain y where y: "tr = train_idx_of (vals ix) (anchor_for_year S y)"
    "te = test_idx_of S bd (vals ix) (anchor_for_year S y)"
    by blast
  show ?thesis
    unfolding y by (intro exI [of _ y]) (simp add: train_idx_of_def test_idx_of_def np_where_iff)
qed

lemma py_bound_le: "0 \<le> n \<Longrightarrow> py_bound n i \<le> n"
  by (simp add: py_bound_def)

lemma py_bound_mono: "0 \<le> a \<Longrightarrow> a \<le> b \<Longrightarrow> py_bound n a \<le> py_bound n b"
  by (simp add: py_bound_def)

lemma py_bound_above: "0 \<le> n \<Longrightarrow> n \<le> i \<Longrightarrow> py_bound n i = n"
  by (simp add: py_bound_def)

lemma py_slice_iff:
  "i \<in> set (py_slice n a b) \<longleftrightarrow> nat (py_bound (int n) a) \<le> i \<and> i < nat (py_bound (int n) b)"
  by (simp add: py_slice_def)

lemma py_range_pos:
  assumes "py_range a b s = Inr vs" and "0 < s" and "v \<in> set vs"
  shows "a \<le> v"
proof -
  from assms obtain k :: nat where "v = a + int k * s"
    by (auto simp: py_range_def)
  moreover from assms(2) have "0 \<le> int k * s" by simp
  ultimately show ?thesis by simp
qed

lemma py_range_neg:
  assumes "py_range a b s = Inr vs" and "s < 0" and "v \<in> set vs"
  shows "b < v"
proof -
  define t where "t = - s"
  define L where "L = (a - b + t - 1) div t"
  from assms(2) have t: "0 < t" by (simp add: t_def)
  from assms obtain k :: nat where k: "v = a + int k * s" "k < nat L"
    by (auto simp: py_range_def L_def t_def)
  from k(2) have kL: "int k \<le> L - 1" by simp
  have "L * t + (a - b + t - 1) mod t = a - b + t - 1"
    unfolding L_def by (rule div_mult_mod_eq)
  moreover from t have "0 \<le> (a - b + t - 1) mod t" by simp
  ultimately have "L * t \<le> a - b + t - 1" by linarith
  moreover from kL t have "int k * t \<le> (L - 1) * t" by (simp add: mult_right_mono)
  moreover have "(L - 1) * t = L * t - t" by (simp add: algebra_simps)
  ultimately have "int k * t \<le> a - b - 1" by simp
  moreover have "int k * s = - (int k * t)" by (simp add: t_def)
  ultimately show ?thesis using k(1) by simp
qed



lemma sklearn_TimeSeriesSplit_unfold:
  "sklearn_TimeSeriesSplit n m t g um =
     (if n \<le> 1 then ([], Some ValueError)
      else if int (length um) < n + 1 then ([], Some ValueError)
      else if int (length um) - g
                - (case t of None \<Rightarrow> int (length um) div (n + 1) | Some t' \<Rightarrow> t') * n \<le> 0
        then ([], Some ValueError)
      else
        (case py_range
                (int (length um)
                   - n * (case t of None \<Rightarrow> int (length um) div (n + 1) | Some t' \<Rightarrow> t'))
                (int (length um))
                (case t of None \<Rightarrow> int (length um) div (n + 1) | Some t' \<Rightarrow> t') of
           Inl e \<Rightarrow> ([], Some e)
         | Inr test_starts \<Rightarrow>
             (map (\<lambda>v. (py_slice (length um)
                          (case m of
                             None \<Rightarrow> 0
                           | Some m' \<Rightarrow> if m' \<noteq> 0 \<and> m' < v - g then v - g - m' else 0)
                          (v - g),
                        py_slice (length um) v
                          (v + (case t of None \<Rightarrow> int (length um) div (n + 1) | Some t' \<Rightarrow> t'))))
                test_starts,
              None)))"
  unfolding sklearn_TimeSeriesSplit_def Let_def by (rule refl)

lemma sklearn_fold_origin:
  assumes "(btr, bte) \<in> set (fst (sklearn_TimeSeriesSplit n m t g um))"
  shows "\<exists>tsz starts v a. 0 < int (length um) - g - tsz * n
     \<and> py_range (int (length um) - n * tsz) (int (length um)) tsz = Inr starts
     \<and> v \<in> set starts
     \<and> btr = py_slice (length um) a (v - g) \<and> bte = py_slice (length um) v (v + tsz)"
proof -
  define tsz where "tsz = (case t of None \<Rightarrow> int (length um) div (n + 1) | Some t' \<Rightarrow> t')"
  note u = sklearn_TimeSeriesSplit_unfold [of n m t g um, folded tsz_def]
  have c1: "\<not> n \<le> 1"
  proof
    assume "n \<le> 1"
    with assms show False unfolding u by (simp only: if_True fst_conv list.set empty_iff)
  qed
  have c2: "\<not> int (length um) < n + 1"
  proof
    assume "int (length um) < n + 1"
    with assms c1 show False unfolding u by (simp only: if_True if_False fst_conv list.set empty_iff)
  qed
  have c3: "\<not> int (length um) - g - tsz * n \<le> 0"
  proof
    assume "int (length um) - g - tsz * n \<le> 0"
    with assms c1 c2 show False
      unfolding u by (simp only: if_True if_False fst_conv list.set empty_iff)
  qed
  from assms c1 c2 c3
  have f: "(btr, bte) \<in> set (fst
     (case py_range (int (length um) - n * tsz) (int (length um)) tsz of
           Inl e \<Rightarrow> ([], Some e)
         | Inr test_starts \<Rightarrow>
             (map (\<lambda>v. (py_slice (length um)
                          (case m of
                             None \<Rightarrow> 0
                           | Some m' \<Rightarrow> if m' \<noteq> 0 \<and> m' < v - g then v - g - m' else 0)
                          (v - g),
                        py_slice (length um) v (v + tsz)))
                test_starts,
              None)))"
    unfolding u by (simp only: if_False)
  show ?thesis
  proof (cases "py_range (int (length um) - n * tsz) (int (length um)) tsz")
    case (Inl e)
    with f show ?thesis by simp
  next
    case (Inr starts)
    with f obtain v where v: "v \<in> set starts"
      and "btr = py_slice (length um)
              (case m of
                 None \<Rightarrow> 0
               | Some m' \<Rightarrow> if m' \<noteq> 0 \<and> m' < v - g then v - g - m' else 0) (v - g)"
      and "bte = py_slice (length um) v (v + tsz)"
      by auto
    with c3 Inr show ?thesis by (intro exI [of _ tsz] exI [of _ starts] exI [of _ v] exI) simp
  qed
qed

lemma sklearn_TimeSeriesSplit_ordered:
  assumes "0 \<le> g"
  shows "test_after_train (fst (sklearn_TimeSeriesSplit n m t g um))"
  unfolding test_after_train_def
proof (intro ballI, clarify)
  fix btr bte i j
  assume fold: "(btr, bte) \<in> set (fst (sklearn_TimeSeriesSplit n m t g um))"
    and ij: "i \<in> set btr" "j \<in> set bte"
  define N where "N = int (length um)"
  have N: "0 \<le> N" by (simp add: N_def)
  from sklearn_fold_origin [OF fold] obtain tsz starts v a where
    ok: "0 < N - g - tsz * n" and r: "py_range (N - n * tsz) N tsz = Inr starts"
    and v: "v \<in> set starts"
    and btr: "btr = py_slice (length um) a (v - g)"
    and bte: "bte = py_slice (length um) v (v + tsz)"
    unfolding N_def by blast
  from ij(1) btr have i: "i < nat (py_bound N (v - g))" by (simp add: py_slice_iff N_def)
  from ij(2) bte have j: "nat (py_bound N v) \<le> j" "j < nat (py_bound N (v + tsz))"
    by (simp_all add: py_slice_iff N_def)
  from r have z: "tsz \<noteq> 0" by (auto simp: py_range_def split: if_splits)
  show "i < j"
  proof (cases "0 < tsz")
    case True
    from py_range_pos [OF r True v] have "N - n * tsz \<le> v" .
    with ok have "0 \<le> v - g" by (simp add: mult.commute)
    with assms have "py_bound N (v - g) \<le> py_bound N v"
      by (intro py_bound_mono) simp_all
    with i j(1) show ?thesis by linarith
  next
    case False
    with z have "tsz < 0" by simp
    from py_range_neg [OF r this v] have "N < v" .
    with N have "py_bound N v = N" by (simp add: py_bound_above)
    moreover have "py_bound N (v + tsz) \<le> N" using N by (rule py_bound_le)
    ultimately show ?thesis using j by linarith
  qed
qed



lemma five_rows_months: "unique_months five_rows = [636, 637, 638, 639]"
  by (simp add: unique_months_def five_rows_def to_period_M_def)

lemma five_rows_max_day: "max_day_in_last_month five_rows = Some 3"
  by (simp add: max_day_in_last_month_def five_rows_months) (simp add: five_rows_def to_period_M_def)

lemma sklearn_4: "sklearn_TimeSeriesSplit 2 None None 0 [636, 637, 638, 639 :: int] =
    ([([0, 1], [2]), ([0, 1, 2], [3])], None)"
  by (simp add: sklearn_TimeSeriesSplit_def py_range_def Let_def upt_rec)
    (simp add: py_slice_def py_bound_def upt_rec)

lemma sklearn_3: "sklearn_TimeSeriesSplit 2 None None 0 [636, 637, 638 :: int] =
    ([([0], [1]), ([0, 1], [2])], None)"
  by (simp add: sklearn_TimeSeriesSplit_def py_range_def Let_def upt_rec)
    (simp add: py_slice_def py_bound_def upt_rec)

lemma sklearn_4_gap_1: "sklearn_TimeSeriesSplit 2 None None 1 [636, 637, 638, 639 :: int] =
    ([([0], [2]), ([0, 1], [3])], None)"
  by (simp add: sklearn_TimeSeriesSplit_def py_range_def Let_def upt_rec)
    (simp add: py_slice_def py_bound_def upt_rec)

lemma sklearn_4_negative_gap:
  "sklearn_TimeSeriesSplit 2 None None (- 1) [636, 637, 638, 639 :: int] =
    ([([0, 1, 2], [2]), ([0, 1, 2, 3], [3])], None)"
  by (simp add: sklearn_TimeSeriesSplit_def py_range_def Let_def upt_rec)
    (simp add: py_slice_def py_bound_def upt_rec)

lemma run_five_rows:
  "MonthlyTimeSeriesSplit_split two_folds sklearn_TimeSeriesSplit five_rows =
     [Yield [0, 1, 2] [3], Yield [0, 1, 2, 3] [4]]"
  by (simp add: MonthlyTimeSeriesSplit_split_def kept_months_def month_splits_def two_folds_def
      five_rows_months sklearn_4 take_idx_def rows_in_def)
    (simp add: five_rows_def to_period_M_def)

lemma run_five_rows_min_10:
  "MonthlyTimeSeriesSplit_split two_folds_min_10 sklearn_TimeSeriesSplit five_rows =
     [Yield [0, 1] [2], Yield [0, 1, 2] [3]]"
  by (simp add: MonthlyTimeSeriesSplit_split_def kept_months_def month_splits_def two_folds_def
      two_folds_min_10_def five_rows_months five_rows_max_day sklearn_3 take_idx_def
      rows_in_def)
    (simp add: five_rows_def to_period_M_def)

lemma run_five_rows_gap_1:
  "MonthlyTimeSeriesSplit_split two_folds_gap_1 sklearn_TimeSeriesSplit five_rows =
     [Yield [0, 1] [3], Yield [0, 1, 2] [4]]"
  by (simp add: MonthlyTimeSeriesSplit_split_def kept_months_def month_splits_def two_folds_def
      two_folds_gap_1_def five_rows_months sklearn_4_gap_1 take_idx_def rows_in_def)
    (simp add: five_rows_def to_period_M_def)

lemma run_five_rows_negative_gap:
  "MonthlyTimeSeriesSplit_split two_folds_negative_gap sklearn_TimeSeriesSplit five_rows =
     [Yield [0, 1, 2, 3] [3], Yield [0, 1, 2, 3, 4] [4]]"
  by (simp add: MonthlyTimeSeriesSplit_split_def kept_months_def month_splits_def two_folds_def
      two_folds_negative_gap_def five_rows_months sklearn_4_negative_gap take_idx_def rows_in_def)
    (simp add: five_rows_def to_period_M_def)

lemma five_rows_chronological:
  "list_all (\<lambda>r. valid_date (snd r)) five_rows" "chronological (map snd five_rows)"
  "distinct (map fst five_rows)"
  by (simp_all add: five_rows_def calendar_defs chronological_def date_le_def date_less_def)

text \<open>
  Claim C1 does not hold as stated: \<^verbatim>\<open>MonthlyTimeSeriesSplit\<close> hands \<open>gap\<close> to the
  delegate unchecked, and with a gap of minus one the train buckets of a fold reach one
  bucket into its test window. On the chronological frame of five rows the first fold
  then has the row of March, label 3, in its train and in its test labels.
\<close>

theorem negative_gap_overlap_counterexample:
  "list_all (\<lambda>r. valid_date (snd r)) five_rows \<and> chronological (map snd five_rows)
   \<and> distinct (map fst five_rows)
   \<and> gap two_folds_negative_gap = - 1
   \<and> MonthlyTimeSeriesSplit_split two_folds_negative_gap sklearn_TimeSeriesSplit five_rows =
       [Yield [0, 1, 2, 3] [3], Yield [0, 1, 2, 3, 4] [4]]
   \<and> set [0, 1, 2, 3 :: nat] \<inter> set [3] \<noteq> {}
   \<and> fst (five_rows ! 3) = 3
   \<and> \<not> date_less (snd (five_rows ! 3)) (snd (five_rows ! 3))"
  using five_rows_chronological run_five_rows_negative_gap
  by (simp add: two_folds_negative_gap_def two_folds_def) (simp add: five_rows_def date_less_def)

text \<open>
  Claim C1, as amended. MonthlyTimeSeriesSplit, with scikit-learn's splitter as the
  delegate: whenever \<open>gap\<close> is not negative, on a frame of calendar dates in chronological
  order with distinct index labels, the train labels and the test labels of every yielded
  fold are disjoint, and every row with a train label is in a month strictly before the
  month of every row with a test label, hence at an earlier date; this holds for every
  number of splits, test size and maximal train size.
  AnchorSplit: for every index and every yielded fold, the train positions and the test
  positions are disjoint, and there is a year whose anchor is strictly after every train
  date and not after any test date; so the day number of every train date is below that
  of every test date, and on an index of calendar dates every train date is earlier than
  every test date.
\<close>

theorem no_leakage:
  "((\<forall>r \<in> set X. valid_date (snd r)) \<and> chronological (map snd X) \<and> distinct (map fst X)
      \<and> 0 \<le> gap M \<longrightarrow>
      (\<forall>(tr, te) \<in> set (folds_of (MonthlyTimeSeriesSplit_split M sklearn_TimeSeriesSplit X)).
         set tr \<inter> set te = {}
         \<and> (\<forall>r \<in> set X. \<forall>s \<in> set X. fst r \<in> set tr \<and> fst s \<in> set te \<longrightarrow>
               to_period_M (snd r) < to_period_M (snd s) \<and> date_less (snd r) (snd s))))
   \<and> (\<forall>ix. DatetimeIndex D = Inr ix \<longrightarrow>
        (\<forall>(tr, te) \<in> set (folds_of (AnchorSplit_split A DatetimeIndex CustomBusinessDay D)).
           set tr \<inter> set te = {}
           \<and> (\<exists>y. (\<forall>i \<in> set tr. i < length (vals ix)
                        \<and> toordinal (vals ix ! i) < anchor_for_year A y)
                  \<and> (\<forall>j \<in> set te. j < length (vals ix)
                        \<and> anchor_for_year A y \<le> toordinal (vals ix ! j)))
           \<and> (\<forall>i \<in> set tr. \<forall>j \<in> set te. toordinal (vals ix ! i) < toordinal (vals ix ! j))
           \<and> (list_all valid_date (vals ix) \<longrightarrow>
                (\<forall>i \<in> set tr. \<forall>j \<in> set te. date_less (vals ix ! i) (vals ix ! j)))))"
proof (intro conjI impI allI)
  assume h: "(\<forall>r \<in> set X. valid_date (snd r)) \<and> chronological (map snd X)
      \<and> distinct (map fst X) \<and> 0 \<le> gap M"
  then have valid: "\<forall>r \<in> set X. valid_date (snd r)" and chrono: "chronological (map snd X)"
    and labels: "distinct (map fst X)"
    by simp_all
  from h have delegate: "\<forall>um. test_after_train (fst (month_splits M sklearn_TimeSeriesSplit um))"
    by (simp add: month_splits_def sklearn_TimeSeriesSplit_ordered)
  show "\<forall>(tr, te) \<in> set (folds_of (MonthlyTimeSeriesSplit_split M sklearn_TimeSeriesSplit X)).
         set tr \<inter> set te = {}
         \<and> (\<forall>r \<in> set X. \<forall>s \<in> set X. fst r \<in> set tr \<and> fst s \<in> set te \<longrightarrow>
               to_period_M (snd r) < to_period_M (snd s) \<and> date_less (snd r) (snd s))"
  proof (intro ballI, clarify, intro conjI ballI impI)
    fix tr te
    assume fold: "(tr, te) \<in> set (folds_of (MonthlyTimeSeriesSplit_split M sklearn_TimeSeriesSplit X))"
    show "set tr \<inter> set te = {}"
      using valid chrono labels delegate fold by (rule monthly_fold_disjoint)
    fix r s
    assume rs: "r \<in> set X" "s \<in> set X" "fst r \<in> set tr \<and> fst s \<in> set te"
    then show p: "to_period_M (snd r) < to_period_M (snd s)"
      using monthly_fold_separated [OF valid chrono labels delegate fold, of r s] by simp
    from rs valid have "valid_date (snd r)" "valid_date (snd s)" by simp_all
    then show "date_less (snd r) (snd s)" using p by (rule period_less_date_less)
  qed
next
  fix ix
  assume ix: "DatetimeIndex D = Inr ix"
  show "\<forall>(tr, te) \<in> set (folds_of (AnchorSplit_split A DatetimeIndex CustomBusinessDay D)).
           set tr \<inter> set te = {}
           \<and> (\<exists>y. (\<forall>i \<in> set tr. i < length (vals ix)
                        \<and> toordinal (vals ix ! i) < anchor_for_year A y)
                  \<and> (\<forall>j \<in> set te. j < length (vals ix)
                        \<and> anchor_for_year A y \<le> toordinal (vals ix ! j)))
           \<and> (\<forall>i \<in> set tr. \<forall>j \<in> set te. toordinal (vals ix ! i) < toordinal (vals ix ! j))
           \<and> (list_all valid_date (vals ix) \<longrightarrow>
                (\<forall>i \<in> set tr. \<forall>j \<in> set te. date_less (vals ix ! i) (vals ix ! j)))"
  proof (intro ballI, clarify)
    fix tr te
    assume "(tr, te) \<in> set (folds_of (AnchorSplit_split A DatetimeIndex CustomBusinessDay D))"
    from anchor_fold_separated [OF ix this]
    obtain y where y: "\<forall>i \<in> set tr. i < length (vals ix)
                        \<and> toordinal (vals ix ! i) < anchor_for_year A y"
      "\<forall>j \<in> set te. j < length (vals ix) \<and> anchor_for_year A y \<le> toordinal (vals ix ! j)"
      by blast
    have d: "set tr \<inter> set te = {}"
    proof (rule ccontr)
      assume "set tr \<inter> set te \<noteq> {}"
      then obtain i where "i \<in> set tr" "i \<in> set te" by blast
      with y show False by fastforce
    qed
    have o: "\<forall>i \<in> set tr. \<forall>j \<in> set te. toordinal (vals ix ! i) < toordinal (vals ix ! j)"
      using y by fastforce
    have l: "list_all valid_date (vals ix) \<longrightarrow>
                (\<forall>i \<in> set tr. \<forall>j \<in> set te. date_less (vals ix ! i) (vals ix ! j))"
    proof (intro impI ballI)
      fix i j
      assume v: "list_all valid_date (vals ix)" and ij: "i \<in> set tr" "j \<in> set te"
      with y have "i < length (vals ix)" "j < length (vals ix)" by simp_all
      with v have vv: "valid_date (vals ix ! i)" "valid_date (vals ix ! j)"
        by (simp_all add: list_all_length)
      from o ij have "toordinal (vals ix ! i) < toordinal (vals ix ! j)" by blast
      then show "date_less (vals ix ! i) (vals ix ! j)"
        by (simp only: toordinal_less_iff [OF vv])
    qed
    from d y o l show "set tr \<inter> set te = {}
           \<and> (\<exists>y. (\<forall>i \<in> set tr. i < length (vals ix)
                        \<and> toordinal (vals ix ! i) < anchor_for_year A y)
                  \<and> (\<forall>j \<in> set te. j < length (vals ix)
                        \<and> anchor_for_year A y \<le> toordinal (vals ix ! j)))
           \<and> (\<forall>i \<in> set tr. \<forall>j \<in> set te. toordinal (vals ix ! i) < toordinal (vals ix ! j))
           \<and> (list_all valid_date (vals ix) \<longrightarrow>
                (\<forall>i \<in> set tr. \<forall>j \<in> set te. date_less (vals ix ! i) (vals ix ! j)))"
      by blast
  qed
qed

theorem no_leakage_witness:
  "list_all (\<lambda>r. valid_date (snd r)) five_rows \<and> chronological (map snd five_rows)
   \<and> distinct (map fst five_rows)
   \<and> gap two_folds_gap_1 = 1
   \<and> MonthlyTimeSeriesSplit_split two_folds_gap_1 sklearn_TimeSeriesSplit five_rows =
       [Yield [0, 1] [3], Yield [0, 1, 2] [4]]
   \<and> set [0, 1, 2 :: nat] \<inter> set [4] = {}
   \<and> to_period_M (snd (five_rows ! 2)) < to_period_M (snd (five_rows ! 4))
   \<and> date_less (snd (five_rows ! 2)) (snd (five_rows ! 4))
   \<and> list_all valid_date four_dates
   \<and> AnchorSplit_split second_friday index_of_dates busday_offset four_dates =
       [Warn 1 2, Yield [0, 1] [2, 3]]
   \<and> toordinal (four_dates ! 1) < toordinal (four_dates ! 2)
   \<and> date_less (four_dates ! 1) (four_dates ! 2)"
proof -
  have v: "\<forall>r \<in> set five_rows. valid_date (snd r)"
    using five_rows_chronological(1) by (simp add: list_all_iff)
  note c = five_rows_chronological(2)
  note l = five_rows_chronological(3)
  have g: "gap two_folds_gap_1 = 1" "0 \<le> gap two_folds_gap_1"
    by (simp_all add: two_folds_gap_1_def two_folds_def)
  have i: "index_of_dates four_dates = Inr \<lparr>dtype = Datetime64, vals = four_dates\<rparr>"
    by (simp add: index_of_dates_def)
  have w: "list_all valid_date four_dates"
    by (simp add: four_dates_def calendar_defs)
  note t = no_leakage [of five_rows two_folds_gap_1 index_of_dates four_dates
      second_friday busday_offset]
  from t v c l g(2)
  have "\<forall>(tr, te) \<in> set (folds_of
           (MonthlyTimeSeriesSplit_split two_folds_gap_1 sklearn_TimeSeriesSplit five_rows)).
         set tr \<inter> set te = {}
         \<and> (\<forall>r \<in> set five_rows. \<forall>s \<in> set five_rows. fst r \<in> set tr \<and> fst s \<in> set te \<longrightarrow>
               to_period_M (snd r) < to_period_M (snd s) \<and> date_less (snd r) (snd s))"
    by blast
  then have m: "set [0, 1, 2 :: nat] \<inter> set [4] = {}
     \<and> to_period_M (snd (five_rows ! 2)) < to_period_M (snd (five_rows ! 4))
     \<and> date_less (snd (five_rows ! 2)) (snd (five_rows ! 4))"
    by (simp add: run_five_rows_gap_1) (simp add: five_rows_def)
  from t i w
  have "\<forall>(tr, te) \<in> set (folds_of (AnchorSplit_split second_friday index_of_dates busday_offset four_dates)).
           (\<forall>i \<in> set tr. \<forall>j \<in> set te. toordinal (four_dates ! i) < toordinal (four_dates ! j))
           \<and> (\<forall>i \<in> set tr. \<forall>j \<in> set te. date_less (four_dates ! i) (four_dates ! j))"
    by fastforce
  then have a: "toordinal (four_dates ! 1) < toordinal (four_dates ! 2)
      \<and> date_less (four_dates ! 1) (four_dates ! 2)"
    by (simp add: run_four_dates)
  from five_rows_chronological g(1) m a w run_five_rows_gap_1 run_four_dates show ?thesis
    by simp
qed

section \<open>MonthlyTimeSeriesSplit: a short last month\<close>

lemma max_day_Some_months:
  assumes "max_day_in_last_month X = Some m"
  shows "unique_months X \<noteq> []"
proof
  assume "unique_months X = []"
  then have "set (unique_months X) = {}" by simp
  then have "X = []" by (simp add: unique_months_def)
  with assms show False by (simp add: max_day_in_last_month_def)
qed

lemma kept_months_short:
  assumes "min_days_in_last_month S = Some k" and "max_day_in_last_month X = Some m" and "m < k"
  shows "kept_months S X = Inr (butlast (unique_months X))"
  using assms max_day_Some_months [OF assms(2)]
  by (simp add: kept_months_def split: list.splits)

lemma kept_months_long:
  assumes "min_days_in_last_month S = Some k" and "max_day_in_last_month X = Some m" and "k \<le> m"
  shows "kept_months S X = Inr (unique_months X)"
  using assms max_day_Some_months [OF assms(2)]
  by (simp add: kept_months_def split: list.splits)

lemma kept_months_None:
  "min_days_in_last_month S = None \<Longrightarrow> kept_months S X = Inr (unique_months X)"
  by (simp add: kept_months_def)

lemma fold_labels_in_buckets:
  assumes fold: "(tr, te) \<in> set (folds_of (MonthlyTimeSeriesSplit_split S TimeSeriesSplit X))"
    and kept: "kept_months S X = Inr um"
    and labels: "distinct (map fst X)"
    and r: "r \<in> set X" "fst r \<in> set tr \<or> fst r \<in> set te"
  shows "to_period_M (snd r) \<in> set um"
proof -
  from fold kept obtain btr bte where
    rng: "\<forall>i \<in> set btr. i < length um" "\<forall>j \<in> set bte. j < length um"
    and tr: "tr = rows_in X (map (\<lambda>i. um ! i) btr)" and te: "te = rows_in X (map (\<lambda>i. um ! i) bte)"
    by (auto elim: MonthlyTimeSeriesSplit_split_origin)
  from r(2) tr te obtain d where d: "(fst r, d) \<in> set X"
    "to_period_M d \<in> set (map (\<lambda>i. um ! i) btr) \<union> set (map (\<lambda>i. um ! i) bte)"
    by (auto simp: rows_in_iff)
  from r(1) have "(fst r, snd r) \<in> set X" by simp
  with d(1) have "d = snd r" using label_date [OF labels] by blast
  with d(2) rng show ?thesis by auto
qed

text \<open>
  Claim C3. When \<open>min_days_in_last_month\<close> is set and the largest day of month among the
  rows of the last month is strictly below it, the last month is dropped from the bucket
  list, and on a frame with distinct index labels no row of that month has its label in
  the train or test indices of any yielded fold. When the largest day is at least the
  threshold, or \<open>min_days_in_last_month\<close> is None, the bucket list keeps the last month.
\<close>

theorem bucket_truncation:
  "(min_days_in_last_month S = Some k \<and> max_day_in_last_month X = Some m \<and> m < k
      \<and> distinct (map fst X) \<longrightarrow>
      kept_months S X = Inr (butlast (unique_months X))
      \<and> (\<forall>(tr, te) \<in> set (folds_of (MonthlyTimeSeriesSplit_split S TimeSeriesSplit X)).
           \<forall>r \<in> set X. to_period_M (snd r) = last (unique_months X) \<longrightarrow>
             fst r \<notin> set tr \<and> fst r \<notin> set te))
   \<and> (min_days_in_last_month S = Some k \<and> max_day_in_last_month X = Some m \<and> k \<le> m \<longrightarrow>
        kept_months S X = Inr (unique_months X))
   \<and> (min_days_in_last_month S = None \<longrightarrow> kept_months S X = Inr (unique_months X))"
proof (intro conjI impI)
  assume h: "min_days_in_last_month S = Some k \<and> max_day_in_last_month X = Some m \<and> m < k
      \<and> distinct (map fst X)"
  then show kept: "kept_months S X = Inr (butlast (unique_months X))"
    by (simp add: kept_months_short)
  from h have ne: "unique_months X \<noteq> []" by (simp add: max_day_Some_months)
  have out: "last (unique_months X) \<notin> set (butlast (unique_months X))"
    using ne by (simp add: last_notin_butlast unique_months_def)
  show "\<forall>(tr, te) \<in> set (folds_of (MonthlyTimeSeriesSplit_split S TimeSeriesSplit X)).
           \<forall>r \<in> set X. to_period_M (snd r) = last (unique_months X) \<longrightarrow>
             fst r \<notin> set tr \<and> fst r \<notin> set te"
  proof (intro ballI, clarify)
    fix tr te l d
    assume fold: "(tr, te) \<in> set (folds_of (MonthlyTimeSeriesSplit_split S TimeSeriesSplit X))"
      and r: "(l, d) \<in> set X" "to_period_M (snd (l, d)) = last (unique_months X)"
    show "fst (l, d) \<notin> set tr \<and> fst (l, d) \<notin> set te"
    proof (rule ccontr)
      assume "\<not> (fst (l, d) \<notin> set tr \<and> fst (l, d) \<notin> set te)"
      then have "fst (l, d) \<in> set tr \<or> fst (l, d) \<in> set te" by blast
      with fold kept h r(1)
      have "to_period_M (snd (l, d)) \<in> set (butlast (unique_months X))"
        by (intro fold_labels_in_buckets [where tr = tr and te = te]) simp_all
      with r(2) out show False by simp
    qed
  qed
next
  assume "min_days_in_last_month S = Some k \<and> max_day_in_last_month X = Some m \<and> k \<le> m"
  then show "kept_months S X = Inr (unique_months X)" by (simp add: kept_months_long)
next
  assume "min_days_in_last_month S = None"
  then show "kept_months S X = Inr (unique_months X)" by (rule kept_months_None)
qed

theorem bucket_truncation_witness:
  "max_day_in_last_month five_rows = Some 3
   \<and> kept_months two_folds_min_10 five_rows = Inr [636, 637, 638]
   \<and> MonthlyTimeSeriesSplit_split two_folds_min_10 sklearn_TimeSeriesSplit five_rows =
       [Yield [0, 1] [2], Yield [0, 1, 2] [3]]
   \<and> to_period_M (snd (five_rows ! 4)) = last (unique_months five_rows)
   \<and> fst (five_rows ! 4) \<notin> set [0, 1, 2] \<and> fst (five_rows ! 4) \<notin> set [3]
   \<and> kept_months (two_folds\<lparr>min_days_in_last_month := Some 3\<rparr>) five_rows =
       Inr [636, 637, 638, 639]
   \<and> kept_months two_folds five_rows = Inr [636, 637, 638, 639]"
proof -
  have a: "min_days_in_last_month two_folds_min_10 = Some 10"
    and b: "min_days_in_last_month (two_folds\<lparr>min_days_in_last_month := Some 3\<rparr>) = Some 3"
    and c: "min_days_in_last_month two_folds = None"
    by (simp_all add: two_folds_min_10_def two_folds_def)
  have l: "distinct (map fst five_rows)" by (simp add: five_rows_def)
  have r: "five_rows ! 4 \<in> set five_rows
           \<and> to_period_M (snd (five_rows ! 4)) = last (unique_months five_rows)"
    by (simp add: five_rows_months) (simp add: five_rows_def to_period_M_def)
  from bucket_truncation [of two_folds_min_10 10 five_rows 3 sklearn_TimeSeriesSplit]
    a five_rows_max_day l
  have 1: "kept_months two_folds_min_10 five_rows = Inr (butlast (unique_months five_rows))"
    and 2: "\<forall>(tr, te) \<in> set (folds_of
                (MonthlyTimeSeriesSplit_split two_folds_min_10 sklearn_TimeSeriesSplit five_rows)).
           \<forall>r \<in> set five_rows. to_period_M (snd r) = last (unique_months five_rows) \<longrightarrow>
             fst r \<notin> set tr \<and> fst r \<notin> set te"
    by simp_all
  from 2 r have 3: "fst (five_rows ! 4) \<notin> set [0, 1, 2] \<and> fst (five_rows ! 4) \<notin> set [3]"
    by (simp add: run_five_rows_min_10)
  from bucket_truncation
    [of "two_folds\<lparr>min_days_in_last_month := Some 3\<rparr>" 3 five_rows 3 sklearn_TimeSeriesSplit]
    b five_rows_max_day
  have 4: "kept_months (two_folds\<lparr>min_days_in_last_month := Some 3\<rparr>) five_rows =
       Inr (unique_months five_rows)"
    by simp
  from bucket_truncation [of two_folds 0 five_rows 0 sklearn_TimeSeriesSplit] c
  have 5: "kept_months two_folds five_rows = Inr (unique_months five_rows)"
    by simp
  from 1 3 4 5 r five_rows_max_day run_five_rows_min_10 show ?thesis
    by (simp add: five_rows_months)
qed

end
